theory Spec2Isabelle
  imports
    Main
    "HOL-Library.Multiset"
    "HOL-Library.Sublist"
    "HOL-Library.List_Lexorder"
    "HOL-Library.Product_Lexorder"
    "HOL-Library.Option_ord"
begin

section \<open>Strings and the task table\<close>

text \<open>
  A Python \<open>str\<close> is a sequence of Unicode code points; it is modelled as the list of
  its code points. The order of \<open>HOL-Library.List_Lexorder\<close> on such lists is Python's
  order on \<open>str\<close> (code point by code point, a proper prefix first), and the order of
  \<open>HOL-Library.Product_Lexorder\<close> is Python's order on tuples.
\<close>

type_synonym pystr = "nat list"

text \<open>The code points of an ASCII literal.\<close>

definition cps :: "string \<Rightarrow> pystr" where
  "cps s = map of_char s"

text \<open>The exceptions of the runtime that the modelled code can meet.\<close>

datatype error = IndexError | ValueError | OverflowError

text \<open>
  One row of the table \<open>tasks\<close> of \<open>CREATE_TABLE_SQL\<close>: \<open>id\<close>, \<open>chat_id\<close>,
  \<open>section\<close>, \<open>text\<close>, \<open>created_at\<close> (the ISO text written by \<open>add_task\<close>),
  \<open>done\<close> (an INTEGER column, written as 0 and 1) and \<open>done_at\<close> (TEXT, NULL
  allowed).
\<close>

record task =
  t_id :: int
  t_chat_id :: int
  t_section :: pystr
  t_text :: pystr
  t_created_at :: pystr
  t_done :: int
  t_done_at :: "pystr option"

text \<open>
  The database: the rows of \<open>tasks\<close> in the order a table scan yields them, and the
  AUTOINCREMENT counter (the largest row id handed out so far).
\<close>

record store =
  rows :: "task list"
  seq :: int

text \<open>A row as \<open>get_open_tasks\<close> selects it: \<open>(id, section, text, created_at)\<close>.\<close>

type_synonym open_row = "int \<times> pystr \<times> pystr \<times> pystr"

section \<open>String operations of the runtime\<close>

text \<open>
  \<open>str.isspace\<close> on one code point. \<open>str.strip()\<close>, \<open>str.split()\<close> and the class
  \<open>\s\<close> of \<open>re\<close> on a \<open>str\<close> pattern all use this set.
\<close>

definition isspace :: "nat \<Rightarrow> bool" where
  "isspace c \<longleftrightarrow>
     (0x09 \<le> c \<and> c \<le> 0x0D) \<or> (0x1C \<le> c \<and> c \<le> 0x20) \<or> c = 0x85 \<or> c = 0xA0 \<or>
     c = 0x1680 \<or> (0x2000 \<le> c \<and> c \<le> 0x200A) \<or> c = 0x2028 \<or> c = 0x2029 \<or>
     c = 0x202F \<or> c = 0x205F \<or> c = 0x3000"

text \<open>\<open>s.strip()\<close>\<close>

definition str_strip :: "pystr \<Rightarrow> pystr" where
  "str_strip s = rev (dropWhile isspace (rev (dropWhile isspace s)))"

text \<open>
  \<open>s.split()\<close>: one scan over the text; \<open>cur\<close> is the word being read. Runs of
  whitespace separate the words and no empty word is produced.
\<close>

fun str_split_acc :: "pystr \<Rightarrow> pystr \<Rightarrow> pystr list" where
  "str_split_acc cur [] = (if cur = [] then [] else [cur])"
| "str_split_acc cur (c # cs) =
     (if isspace c then (if cur = [] then str_split_acc [] cs else cur # str_split_acc [] cs)
      else str_split_acc (cur @ [c]) cs)"

definition str_split :: "pystr \<Rightarrow> pystr list" where
  "str_split s = str_split_acc [] s"

text \<open>\<open>sep.join(ws)\<close>\<close>

fun str_join :: "pystr \<Rightarrow> pystr list \<Rightarrow> pystr" where
  "str_join sep [] = []"
| "str_join sep [w] = w"
| "str_join sep (w # v # ws) = w @ sep @ str_join sep (v # ws)"

text \<open>
  \<open>re.sub(r"\s+", " ", s)\<close>: every maximal run of whitespace becomes one space;
  \<open>in_run\<close> says that the code point before was whitespace.
\<close>

fun sub_ws :: "bool \<Rightarrow> pystr \<Rightarrow> pystr" where
  "sub_ws in_run [] = []"
| "sub_ws in_run (c # cs) =
     (if isspace c then (if in_run then sub_ws True cs else 0x20 # sub_ws True cs)
      else c # sub_ws False cs)"

text \<open>\<open>str(n)\<close> for an integer: its decimal digits, with a sign when negative.\<close>

fun str_nat :: "nat \<Rightarrow> pystr" where
  "str_nat n = (if n < 10 then [0x30 + n] else str_nat (n div 10) @ [0x30 + n mod 10])"

definition str_int :: "int \<Rightarrow> pystr" where
  "str_int n = (if n < 0 then 0x2D # str_nat (nat (- n)) else str_nat (nat n))"

text \<open>\<open>html.escape(s)\<close>, with its default \<open>quote=True\<close>.\<close>

definition escape_cp :: "nat \<Rightarrow> pystr" where
  "escape_cp c =
     (if c = 0x26 then cps ''&amp;''
      else if c = 0x3C then cps ''&lt;''
      else if c = 0x3E then cps ''&gt;''
      else if c = 0x22 then cps ''&quot;''
      else if c = 0x27 then cps ''&#x27;''
      else [c])"

definition html_escape :: "pystr \<Rightarrow> pystr" where
  "html_escape s = concat (map escape_cp s)"

text \<open>
  The decimal digits of Unicode (category Nd; the class \<open>\d\<close> of \<open>re\<close> on a \<open>str\<close>
  pattern, and the digits \<open>int()\<close> reads), as of Unicode 14.0: each entry is the code
  point of a digit zero, followed by the digits one to nine of its script.
\<close>

definition DECIMAL_ZEROS :: "nat list" where
  "DECIMAL_ZEROS =
     [0x30, 0x660, 0x6F0, 0x7C0, 0x966, 0x9E6, 0xA66, 0xAE6, 0xB66, 0xBE6, 0xC66, 0xCE6,
      0xD66, 0xDE6, 0xE50, 0xED0, 0xF20, 0x1040, 0x1090, 0x17E0, 0x1810, 0x1946, 0x19D0,
      0x1A80, 0x1A90, 0x1B50, 0x1BB0, 0x1C40, 0x1C50, 0xA620, 0xA8D0, 0xA900, 0xA9D0,
      0xA9F0, 0xAA50, 0xABF0, 0xFF10, 0x104A0, 0x10D30, 0x11066, 0x110F0, 0x11136,
      0x111D0, 0x112F0, 0x11450, 0x114D0, 0x11650, 0x116C0, 0x11730, 0x118E0, 0x11950,
      0x11C50, 0x11D50, 0x11DA0, 0x16A60, 0x16AC0, 0x16B50, 0x1D7CE, 0x1D7D8, 0x1D7E2,
      0x1D7EC, 0x1D7F6, 0x1E140, 0x1E2F0, 0x1E950, 0x1FBF0]"

definition decimal_value :: "nat \<Rightarrow> nat option" where
  "decimal_value c =
     (case find (\<lambda>z. z \<le> c \<and> c < z + 10) DECIMAL_ZEROS of
        None \<Rightarrow> None
      | Some z \<Rightarrow> Some (c - z))"

definition isdecimal :: "nat \<Rightarrow> bool" where
  "isdecimal c \<longleftrightarrow> decimal_value c \<noteq> None"

text \<open>
  \<open>int(s)\<close> on a text of decimal digits. (\<open>int\<close> also reads a sign, underscores and
  surrounding whitespace; the only text the code passes is the group \<open>(\d+)\<close>. CPython
  refuses more than \<open>sys.get_int_max_str_digits()\<close> digits, 4300 unless configured; a
  chat message is shorter than that, and the bound is not part of the model.)
\<close>

definition py_int :: "pystr \<Rightarrow> error + int" where
  "py_int s =
     (if s = [] \<or> \<not> list_all isdecimal s then Inl ValueError
      else Inr (fold (\<lambda>c acc. 10 * acc + (case decimal_value c of None \<Rightarrow> 0 | Some v \<Rightarrow> int v)) s 0))"

section \<open>Sections\<close>

definition SECTION_ORDER :: "pystr list" where
  "SECTION_ORDER =
     [[0x5D3, 0x5D7, 0x5D5, 0x5E3],
      [0x5D4, 0x5D9, 0x5D5, 0x5DD],
      [0x5DE, 0x5D7, 0x5E8],
      [0x5DB, 0x5DC, 0x5DC, 0x5D9]]"

text \<open>\<open>{name: i for i, name in enumerate(SECTION_ORDER)}\<close>\<close>

definition SECTION_PRIORITY :: "pystr \<rightharpoonup> int" where
  "SECTION_PRIORITY =
     fold (\<lambda>(i, name) m. m(name \<mapsto> int i)) (List.enumerate 0 SECTION_ORDER) Map.empty"

section \<open>Ordering and display numbers\<close>

text \<open>\<open>SELECT id, section, text, created_at FROM tasks WHERE chat_id=? AND done=0\<close>\<close>

definition get_open_tasks :: "int \<Rightarrow> store \<Rightarrow> open_row list" where
  "get_open_tasks chat_id db =
     map (\<lambda>t. (t_id t, t_section t, t_text t, t_created_at t))
       (filter (\<lambda>t. t_chat_id t = chat_id \<and> t_done t = 0) (rows db))"

text \<open>The inner function \<open>key\<close> of \<open>ordered_open_tasks_with_numbers\<close>.\<close>

definition key :: "open_row \<Rightarrow> int \<times> pystr \<times> int" where
  "key r =
     (case r of (rid, section, txt, created_at) \<Rightarrow>
        (let pr = (case SECTION_PRIORITY section of Some p \<Rightarrow> p | None \<Rightarrow> 999)
         in (pr, created_at, rid)))"

text \<open>
  \<open>sorted(rows, key=key)\<close> is a stable sort, as \<open>sort_key\<close> is; the entries of the
  result are the tuples \<open>(display_no, id, section, text, created_at)\<close>.
\<close>

definition ordered_open_tasks_with_numbers :: "int \<Rightarrow> store \<Rightarrow> (int \<times> open_row) list" where
  "ordered_open_tasks_with_numbers chat_id db =
     (let rows = get_open_tasks chat_id db;
          rows_sorted = sort_key key rows
      in map (\<lambda>(idx, r). (int idx, r)) (List.enumerate 1 rows_sorted))"


section \<open>Parsing\<close>

text \<open>\<open>normalize_text\<close>; the argument is \<open>None\<close> for a message without text.\<close>

definition normalize_text :: "pystr option \<Rightarrow> pystr" where
  "normalize_text s =
     sub_ws False (str_strip (case s of None \<Rightarrow> [] | Some t \<Rightarrow> (if t = [] then [] else t)))"

text \<open>
  \<open>parse_section_from_text\<close>. \<open>words[-1]\<close> raises IndexError on an empty list, which
  is a branch of the model.
\<close>

definition parse_section_from_text :: "pystr \<Rightarrow> error + (pystr \<times> pystr)" where
  "parse_section_from_text raw =
     (let text = str_strip raw in
      if text = [] then Inr ([0x5DB, 0x5DC, 0x5DC, 0x5D9], [])
      else
        (let words = str_split text in
         if words = [] then Inl IndexError
         else
           (let last_word = str_strip (last words) in
            if SECTION_PRIORITY last_word \<noteq> None then
              (let section = last_word;
                   task_text = str_strip (str_join [0x20] (butlast words))
               in if task_text = [] then Inr (section, []) else Inr (section, task_text))
            else Inr ([0x5DB, 0x5DC, 0x5DC, 0x5D9], text))))"

definition LIST_COMMANDS :: "pystr list" where
  "LIST_COMMANDS =
     [[0x5E8, 0x5E9, 0x5D9, 0x5DE, 0x5D4],
      [0x5D4, 0x5E6, 0x5D2, 0x20, 0x5E8, 0x5E9, 0x5D9, 0x5DE, 0x5D4],
      [0x5EA, 0x5E8, 0x5D0, 0x5D4, 0x20, 0x5E8, 0x5E9, 0x5D9, 0x5DE, 0x5D4],
      [0x5EA, 0x5E6, 0x5D9, 0x5D2, 0x20, 0x5E8, 0x5E9, 0x5D9, 0x5DE, 0x5D4]]"

definition is_list_command :: "pystr \<Rightarrow> bool" where
  "is_list_command text \<longleftrightarrow> text \<in> set LIST_COMMANDS"

text \<open>
  The two verbs of the pattern of \<open>parse_done_command\<close>, in the order of its
  alternation.
\<close>

definition DONE_VERBS :: "pystr list" where
  "DONE_VERBS =
     [[0x5E1, 0x5D9, 0x5D9, 0x5DD],
      [0x5E1, 0x5D9, 0x5D9, 0x5DE, 0x5EA, 0x5D9]]"

text \<open>
  The rest of the pattern after the verb, \<open>\s+(\d+)\s*$\<close>, matched greedily; the result
  is the group \<open>(\d+)\<close>. (\<open>$\<close> also matches before a final newline, which \<open>\s*\<close> has
  taken by then.)
\<close>

definition match_number_tail :: "pystr \<Rightarrow> pystr option" where
  "match_number_tail rest =
     (let spaces = takeWhile isspace rest;
          rest1 = dropWhile isspace rest;
          digits = takeWhile isdecimal rest1;
          rest2 = dropWhile isdecimal rest1;
          rest3 = dropWhile isspace rest2
      in if spaces \<noteq> [] \<and> digits \<noteq> [] \<and> rest3 = [] then Some digits else None)"

text \<open>
  The alternation \<open>(v1|v2)\<close> at the start of the text: the first verb that lets the rest
  of the pattern match.
\<close>

fun match_verbs :: "pystr list \<Rightarrow> pystr \<Rightarrow> pystr option" where
  "match_verbs [] text = None"
| "match_verbs (v # vs) text =
     (case (if prefix v text then match_number_tail (drop (length v) text) else None) of
        Some g \<Rightarrow> Some g
      | None \<Rightarrow> match_verbs vs text)"

definition parse_done_command :: "pystr \<Rightarrow> error + int option" where
  "parse_done_command text =
     (case match_verbs DONE_VERBS text of
        None \<Rightarrow> Inr None
      | Some g \<Rightarrow> (case py_int g of Inl e \<Rightarrow> Inl e | Inr n \<Rightarrow> Inr (Some n)))"

section \<open>Task operations\<close>

text \<open>
  \<open>add_task\<close>. \<open>now_iso\<close> is the text \<open>now().isoformat()\<close> of the clock at the call.
  The INSERT names neither \<open>id\<close> nor \<open>done_at\<close>: the id is one more than the largest
  row id the table has or had (AUTOINCREMENT), and \<open>done_at\<close> is NULL.
\<close>

definition add_task :: "pystr \<Rightarrow> int \<Rightarrow> pystr \<Rightarrow> pystr \<Rightarrow> store \<Rightarrow> int \<times> store" where
  "add_task now_iso chat_id section text db =
     (let task_id = fold max (map t_id (rows db)) (seq db) + 1;
          row = \<lparr>t_id = task_id, t_chat_id = chat_id, t_section = section,
                 t_text = str_strip text, t_created_at = now_iso, t_done = 0,
                 t_done_at = None\<rparr>
      in (task_id, \<lparr>rows = rows db @ [row], seq = task_id\<rparr>))"

text \<open>
  \<open>UPDATE tasks SET done=1, done_at=? WHERE chat_id=? AND id=? AND done=0\<close>: the new
  table and the number of rows changed (\<open>cur.rowcount\<close>).
\<close>

definition update_done :: "pystr \<Rightarrow> int \<Rightarrow> int \<Rightarrow> store \<Rightarrow> nat \<times> store" where
  "update_done now_iso chat_id task_id db =
     (let hit = (\<lambda>t. t_chat_id t = chat_id \<and> t_id t = task_id \<and> t_done t = 0)
      in (length (filter hit (rows db)),
          db\<lparr>rows := map (\<lambda>t. if hit t then t\<lparr>t_done := 1, t_done_at := Some now_iso\<rparr> else t)
                         (rows db)\<rparr>))"

text \<open>
  The two steps of \<open>mark_done_by_display_number\<close>: the display number is looked up in
  the order computed from the table \<open>db\<close> that the SELECT sees, then the UPDATE runs
  on the table \<open>db_upd\<close> of that later moment, which differs from \<open>db\<close> when another
  request has written in between.
\<close>

definition mark_done_steps :: "pystr \<Rightarrow> int \<Rightarrow> int \<Rightarrow> store \<Rightarrow> store \<Rightarrow> bool \<times> store" where
  "mark_done_steps now_iso chat_id display_no db db_upd =
     (let numbered = ordered_open_tasks_with_numbers chat_id db;
          target = find (\<lambda>x. fst x = display_no) numbered
      in case target of
           None \<Rightarrow> (False, db_upd)
         | Some (dn, task_id, section, txt, created_at) \<Rightarrow>
             (let (rowcount, db') = update_done now_iso chat_id task_id db_upd
              in (rowcount > 0, db')))"

text \<open>\<open>mark_done_by_display_number\<close>, with no other writer between its two steps.\<close>

definition mark_done_by_display_number :: "pystr \<Rightarrow> int \<Rightarrow> int \<Rightarrow> store \<Rightarrow> bool \<times> store" where
  "mark_done_by_display_number now_iso chat_id display_no db =
     mark_done_steps now_iso chat_id display_no db db"

section \<open>Dates and times\<close>

text \<open>
  A \<open>datetime\<close> in the zone \<open>TZ\<close>, by its wall clock: the date as its proleptic
  Gregorian ordinal (\<open>date.toordinal()\<close>, 1 to 3652059) and the time of day. A
  \<open>timedelta\<close> is a number of microseconds. Sums and differences of datetimes of one
  zone are taken on the wall clock, as \<open>datetime\<close> does.
\<close>

record datetime =
  dt_ordinal :: int
  dt_hour :: int
  dt_minute :: int
  dt_second :: int
  dt_microsecond :: int

definition valid_datetime :: "datetime \<Rightarrow> bool" where
  "valid_datetime d \<longleftrightarrow>
     1 \<le> dt_ordinal d \<and> dt_ordinal d \<le> 3652059 \<and>
     0 \<le> dt_hour d \<and> dt_hour d < 24 \<and> 0 \<le> dt_minute d \<and> dt_minute d < 60 \<and>
     0 \<le> dt_second d \<and> dt_second d < 60 \<and> 0 \<le> dt_microsecond d \<and> dt_microsecond d < 1000000"

definition timedelta :: "int \<Rightarrow> int \<Rightarrow> int" where
  "timedelta days seconds = (days * 86400 + seconds) * 1000000"

definition dt_to_us :: "datetime \<Rightarrow> int" where
  "dt_to_us d =
     (((dt_ordinal d * 24 + dt_hour d) * 60 + dt_minute d) * 60 + dt_second d) * 1000000
       + dt_microsecond d"

text \<open>\<open>d + delta\<close>; OverflowError when the date leaves the years 1 to 9999.\<close>

definition dt_add :: "datetime \<Rightarrow> int \<Rightarrow> error + datetime" where
  "dt_add d delta =
     (let total = dt_to_us d + delta;
          days = total div 86400000000;
          r = total mod 86400000000
      in if days < 1 \<or> days > 3652059 then Inl OverflowError
         else Inr \<lparr>dt_ordinal = days, dt_hour = r div 3600000000,
                    dt_minute = (r div 60000000) mod 60, dt_second = (r div 1000000) mod 60,
                    dt_microsecond = r mod 1000000\<rparr>)"

text \<open>\<open>d1 - d2\<close> for two datetimes of the same zone.\<close>

definition dt_diff :: "datetime \<Rightarrow> datetime \<Rightarrow> int" where
  "dt_diff d1 d2 = dt_to_us d1 - dt_to_us d2"

text \<open>
  The functions of the runtime and of SQLite that turn times into text and back; the
  code is modelled for any such functions:
  \<^item> \<open>isoformat d\<close> is \<open>d.isoformat()\<close> for a datetime of the zone \<open>TZ\<close>;
  \<^item> \<open>fromisoformat_tz s\<close> is \<open>datetime.fromisoformat(s).astimezone(TZ)\<close>;
  \<^item> \<open>strftime_dmy d\<close> is \<open>d.strftime("%d/%m/%Y")\<close>;
  \<^item> \<open>sqlite_datetime s\<close> is the value of \<open>datetime(s)\<close> in SQLite, \<open>None\<close> for NULL.
\<close>

record timelib =
  isoformat :: "datetime \<Rightarrow> pystr"
  fromisoformat_tz :: "pystr \<Rightarrow> datetime"
  strftime_dmy :: "datetime \<Rightarrow> pystr"
  sqlite_datetime :: "pystr \<Rightarrow> pystr option"

text \<open>\<open>is_older_than_week\<close>; \<open>now\<close> is the clock at the call.\<close>

definition is_older_than_week :: "timelib \<Rightarrow> datetime \<Rightarrow> pystr \<Rightarrow> bool" where
  "is_older_than_week L now created_at_iso =
     (let dt = fromisoformat_tz L created_at_iso
      in dt_diff now dt \<ge> timedelta 7 0)"

text \<open>
  \<open>get_tasks_done_in_range\<close>. A comparison with NULL selects no row. Rows with equal
  \<open>datetime(done_at)\<close> are returned in the order of the table scan.
\<close>

type_synonym done_row = "int \<times> pystr \<times> pystr \<times> pystr option"

definition in_range :: "timelib \<Rightarrow> datetime \<Rightarrow> datetime \<Rightarrow> pystr option \<Rightarrow> bool" where
  "in_range L start end done_at =
     (case done_at of
        None \<Rightarrow> False
      | Some d \<Rightarrow>
          (case sqlite_datetime L d of
             None \<Rightarrow> False
           | Some k \<Rightarrow>
               (case sqlite_datetime L (isoformat L start) of
                  None \<Rightarrow> False
                | Some lo \<Rightarrow>
                    (case sqlite_datetime L (isoformat L end) of
                       None \<Rightarrow> False
                     | Some hi \<Rightarrow> lo \<le> k \<and> k < hi))))"

definition done_key :: "timelib \<Rightarrow> task \<Rightarrow> pystr option" where
  "done_key L t = (case t_done_at t of None \<Rightarrow> None | Some d \<Rightarrow> sqlite_datetime L d)"

definition get_tasks_done_in_range ::
  "timelib \<Rightarrow> int \<Rightarrow> datetime \<Rightarrow> datetime \<Rightarrow> store \<Rightarrow> done_row list" where
  "get_tasks_done_in_range L chat_id start end db =
     map (\<lambda>t. (t_id t, t_section t, t_text t, t_done_at t))
       (sort_key (done_key L)
          (filter (\<lambda>t. t_chat_id t = chat_id \<and> t_done t = 1 \<and> t_done_at t \<noteq> None \<and>
                        in_range L start end (t_done_at t))
             (rows db)))"

section \<open>Formatting\<close>

definition header :: "pystr \<Rightarrow> pystr" where
  "header title =
     (let safe = html_escape title
      in replicate 20 0x2501 @ [0x0A] @ cps ''<b>'' @ safe @ cps ''</b>'' @ [0x0A]
           @ replicate 20 0x2501)"

text \<open>The dictionary \<open>lines\<close> of \<open>section_title\<close>.\<close>

definition SECTION_TITLE_LINES :: "pystr \<rightharpoonup> pystr" where
  "SECTION_TITLE_LINES =
     [[0x5D3, 0x5D7, 0x5D5, 0x5E3] \<mapsto>
        replicate 9 0x2501 @ [0x20, 0x5D3, 0x5D7, 0x5D5, 0x5E3, 0x20] @ replicate 9 0x2501,
      [0x5D4, 0x5D9, 0x5D5, 0x5DD] \<mapsto>
        replicate 9 0x2501 @ [0x20, 0x5D4, 0x5D9, 0x5D5, 0x5DD, 0x20] @ replicate 9 0x2501,
      [0x5DE, 0x5D7, 0x5E8] \<mapsto>
        replicate 9 0x2501 @ [0x20, 0x5DE, 0x5D7, 0x5E8, 0x20] @ replicate 9 0x2501,
      [0x5DB, 0x5DC, 0x5DC, 0x5D9] \<mapsto>
        replicate 9 0x2501 @ [0x20, 0x5DB, 0x5DC, 0x5DC, 0x5D9, 0x20] @ replicate 9 0x2501]"

definition section_title :: "pystr \<Rightarrow> pystr" where
  "section_title name =
     [0x0A] @ cps ''<b>''
       @ (case SECTION_TITLE_LINES name of None \<Rightarrow> name | Some l \<Rightarrow> l) @ cps ''</b>''"

text \<open>The text of one open task in the list: marker, display number, escaped body.\<close>

definition open_task_line :: "timelib \<Rightarrow> datetime \<Rightarrow> int \<times> open_row \<Rightarrow> pystr" where
  "open_task_line L now e =
     (case e of (display_no, rid, section, txt, created_at) \<Rightarrow>
        (let red = (if is_older_than_week L now created_at then [0x1F534, 0x20] else [])
         in red @ cps ''<b>'' @ str_int display_no @ cps ''</b>'' @ [0x20, 0x2014, 0x20]
              @ html_escape txt))"

text \<open>
  The first loop of \<open>format_open_tasks_message\<close>. Every turn reads the clock anew:
  \<open>clock k\<close> is the reading of the \<open>k\<close>-th call of \<open>now()\<close>.
\<close>

fun group_tasks ::
  "timelib \<Rightarrow> (nat \<Rightarrow> datetime) \<Rightarrow> nat \<Rightarrow> (int \<times> open_row) list \<Rightarrow> (pystr \<rightharpoonup> pystr list)
     \<Rightarrow> (pystr \<rightharpoonup> pystr list)" where
  "group_tasks L clock k [] groups = groups"
| "group_tasks L clock k (e # es) groups =
     (let section = fst (snd (snd e));
          line = open_task_line L (clock k) e;
          items = (case groups section of None \<Rightarrow> [] | Some l \<Rightarrow> l)
      in group_tasks L clock (Suc k) es (groups(section \<mapsto> items @ [line])))"

text \<open>The lines one turn of the second loop appends, for the section \<open>sec\<close>.\<close>

definition section_lines :: "(pystr \<rightharpoonup> pystr list) \<Rightarrow> pystr \<Rightarrow> pystr list" where
  "section_lines groups sec =
     (let items = (case groups sec of None \<Rightarrow> [] | Some l \<Rightarrow> l)
      in section_title sec #
           (if items \<noteq> [] then map (\<lambda>it. [0x2022, 0x20] @ it) items
            else [[0x2022, 0x20, 0x28, 0x5D0, 0x5D9, 0x5DF, 0x29]]))"

definition NO_OPEN_TASKS :: pystr where
  "NO_OPEN_TASKS =
     [0x2705, 0x20] @ cps ''<b>''
       @ [0x5D0, 0x5D9, 0x5DF, 0x20, 0x5DE, 0x5E9, 0x5D9, 0x5DE, 0x5D5, 0x5EA, 0x20, 0x5E4,
          0x5EA, 0x5D5, 0x5D7, 0x5D5, 0x5EA, 0x20, 0x5DB, 0x5E8, 0x5D2, 0x5E2, 0x2E]
       @ cps ''</b>''"

definition OPEN_TASKS_TITLE :: pystr where
  "OPEN_TASKS_TITLE =
     [0x1F9FE, 0x20, 0x5E8, 0x5E9, 0x5D9, 0x5DE, 0x5EA, 0x20, 0x5DE, 0x5E9, 0x5D9, 0x5DE,
      0x5D5, 0x5EA, 0x20, 0x5E4, 0x5EA, 0x5D5, 0x5D7, 0x5D5, 0x5EA]"

text \<open>The list \<open>lines\<close> of \<open>format_open_tasks_message\<close>, before it is joined.\<close>

definition open_tasks_lines ::
  "timelib \<Rightarrow> (nat \<Rightarrow> datetime) \<Rightarrow> (int \<times> open_row) list \<Rightarrow> pystr list" where
  "open_tasks_lines L clock numbered =
     (let groups = group_tasks L clock 0 numbered
                     (fold (\<lambda>s m. m(s \<mapsto> [])) SECTION_ORDER Map.empty)
      in fold (\<lambda>sec lines. lines @ section_lines groups sec) SECTION_ORDER
           [header OPEN_TASKS_TITLE])"

definition format_open_tasks_message ::
  "timelib \<Rightarrow> (nat \<Rightarrow> datetime) \<Rightarrow> int \<Rightarrow> store \<Rightarrow> pystr" where
  "format_open_tasks_message L clock chat_id db =
     (let numbered = ordered_open_tasks_with_numbers chat_id db
      in if numbered = [] then NO_OPEN_TASKS
         else str_join [0x0A] (open_tasks_lines L clock numbered))"

definition DONE_SUMMARY_TITLE :: pystr where
  "DONE_SUMMARY_TITLE =
     [0x1F4C5, 0x20, 0x5E1, 0x5D9, 0x5DB, 0x5D5, 0x5DD, 0x20, 0x5DE, 0x5E9, 0x5D9, 0x5DE,
      0x5D5, 0x5EA, 0x20, 0x2014, 0x20]"

text \<open>The count line for a positive count, and the one for zero.\<close>

definition count_line :: "nat \<Rightarrow> pystr" where
  "count_line cnt =
     [0x0A, 0x1F525, 0x20] @ cps ''<b>''
       @ [0x5E1, 0x5D9, 0x5D9, 0x5DE, 0x5EA, 0x20, 0x5D4, 0x5D9, 0x5D5, 0x5DD, 0x20]
       @ str_int (int cnt)
       @ [0x20, 0x5DE, 0x5E9, 0x5D9, 0x5DE, 0x5D5, 0x5EA] @ cps ''</b>'' @ [0x0A]"

definition ZERO_COUNT_LINE :: pystr where
  "ZERO_COUNT_LINE =
     [0x0A, 0x1F605, 0x20] @ cps ''<b>''
       @ [0x5E1, 0x5D9, 0x5D9, 0x5DE, 0x5EA, 0x20, 0x5D4, 0x5D9, 0x5D5, 0x5DD, 0x20, 0x30,
          0x20, 0x5DE, 0x5E9, 0x5D9, 0x5DE, 0x5D5, 0x5EA, 0x20, 0x5D9, 0x5D0, 0x20, 0x5D0,
          0x5E4, 0x5E1]
       @ cps ''</b>'' @ [0x0A]"

text \<open>The list \<open>lines\<close> of \<open>format_done_summary_for_range\<close>, before it is joined.\<close>

definition done_summary_lines :: "pystr \<Rightarrow> done_row list \<Rightarrow> pystr list" where
  "done_summary_lines day_label done_rows =
     (let cnt = length done_rows;
          lines0 = [header (DONE_SUMMARY_TITLE @ day_label)];
          lines1 = lines0 @ [if cnt > 0 then count_line cnt else ZERO_COUNT_LINE]
      in if cnt = 0 then lines1
         else fold (\<lambda>(rid, section, txt, done_at) lines. lines @ [[0x2022, 0x20] @ html_escape txt])
                done_rows lines1)"

definition format_done_summary_for_range ::
  "timelib \<Rightarrow> int \<Rightarrow> datetime \<Rightarrow> datetime \<Rightarrow> store \<Rightarrow> pystr" where
  "format_done_summary_for_range L chat_id start end db =
     (let done_rows = get_tasks_done_in_range L chat_id start end db;
          day_label = strftime_dmy L start
      in str_join [0x0A] (done_summary_lines day_label done_rows))"

section \<open>Scheduled jobs\<close>

text \<open>
  The window of \<open>send_midnight_done_summary\<close>: \<open>ref\<close>, \<open>day_start\<close> and
  \<open>day_end\<close>, from the clock \<open>now\<close> at the call.
\<close>

definition midnight_window :: "datetime \<Rightarrow> error + (datetime \<times> datetime)" where
  "midnight_window now =
     (case dt_add now (- timedelta 0 1) of
        Inl e \<Rightarrow> Inl e
      | Inr ref \<Rightarrow>
          (let day_start = ref\<lparr>dt_hour := 0, dt_minute := 0, dt_second := 0, dt_microsecond := 0\<rparr>
           in case dt_add day_start (timedelta 1 0) of
                Inl e \<Rightarrow> Inl e
              | Inr day_end \<Rightarrow> Inr (day_start, day_end)))"

text \<open>The text that \<open>send_midnight_done_summary\<close> sends to the chat.\<close>

definition send_midnight_done_summary ::
  "timelib \<Rightarrow> datetime \<Rightarrow> int \<Rightarrow> store \<Rightarrow> error + pystr" where
  "send_midnight_done_summary L now chat_id db =
     (case midnight_window now of
        Inl e \<Rightarrow> Inl e
      | Inr (day_start, day_end) \<Rightarrow>
          Inr (format_done_summary_for_range L chat_id day_start day_end db))"

text \<open>The text that \<open>send_open_tasks\<close> sends to the chat.\<close>

definition send_open_tasks :: "timelib \<Rightarrow> (nat \<Rightarrow> datetime) \<Rightarrow> int \<Rightarrow> store \<Rightarrow> pystr" where
  "send_open_tasks L clock chat_id db = format_open_tasks_message L clock chat_id db"

section \<open>The message handler\<close>

definition DONE_REPLY :: pystr where
  "DONE_REPLY = [0x5E1, 0x5D5, 0x5DE, 0x5DF, 0x20, 0x5DB, 0x5D1, 0x5D5, 0x5E6, 0x5E2, 0x20, 0x2705]"

definition NOT_FOUND_REPLY :: pystr where
  "NOT_FOUND_REPLY =
     [0x5DC, 0x5D0, 0x20, 0x5DE, 0x5E6, 0x5D0, 0x5EA, 0x5D9, 0x20, 0x5DE, 0x5E1, 0x5E4, 0x5E8,
      0x20, 0x5DB, 0x5D6, 0x5D4, 0x20, 0x5D1, 0x5E8, 0x5E9, 0x5D9, 0x5DE, 0x5D4, 0x2E]"

definition USAGE_REPLY :: pystr where
  "USAGE_REPLY =
     [0x5E8, 0x5E9, 0x5D5, 0x5DD, 0x20, 0x5DE, 0x5E9, 0x5D9, 0x5DE, 0x5D4, 0x2C, 0x20, 0x5DC,
      0x5D3, 0x5D5, 0x5D2, 0x5DE, 0x5D4, 0x3A, 0xA, 0x2022, 0x20, 0x3C, 0x62, 0x3E, 0x5DC,
      0x5D4, 0x5D0, 0x5DB, 0x5D9, 0x5DC, 0x20, 0x5D0, 0x5EA, 0x20, 0x5DC, 0x5D9, 0x5E6, 0x5D9,
      0x20, 0x5D3, 0x5D7, 0x5D5, 0x5E3, 0x3C, 0x2F, 0x62, 0x3E, 0xA, 0x2022, 0x20, 0x3C, 0x62,
      0x3E, 0x5DC, 0x5E9, 0x5EA, 0x5D5, 0x5EA, 0x20, 0x5DE, 0x5D9, 0x5DD, 0x20, 0x5DE, 0x5D7,
      0x5E8, 0x3C, 0x2F, 0x62, 0x3E, 0xA, 0x2022, 0x20, 0x3C, 0x62, 0x3E, 0x5DC, 0x5DC, 0x5DB,
      0x5EA, 0x20, 0x5DC, 0x5D9, 0x5DD, 0x3C, 0x2F, 0x62, 0x3E]"

definition added_reply :: "pystr \<Rightarrow> pystr" where
  "added_reply section =
     [0x5E0, 0x5D5, 0x5E1, 0x5E3, 0x20, 0x2705, 0x20] @ cps ''<b>'' @ html_escape section
       @ cps ''</b>''"

text \<open>
  \<open>on_text\<close>: the reply and the database after the message. \<open>clock k\<close> is the reading
  of the \<open>k\<close>-th call of \<open>now()\<close> while the message is handled.
\<close>

definition on_text ::
  "timelib \<Rightarrow> (nat \<Rightarrow> datetime) \<Rightarrow> int \<Rightarrow> pystr option \<Rightarrow> store \<Rightarrow> error + (pystr \<times> store)" where
  "on_text L clock chat_id message_text db =
     (let text = normalize_text message_text in
      if is_list_command text then Inr (format_open_tasks_message L clock chat_id db, db)
      else
        (case parse_done_command text of
           Inl e \<Rightarrow> Inl e
         | Inr (Some done_no) \<Rightarrow>
             (let (ok, db') = mark_done_by_display_number (isoformat L (clock 0)) chat_id done_no db
              in Inr (if ok then DONE_REPLY else NOT_FOUND_REPLY, db'))
         | Inr None \<Rightarrow>
             (case parse_section_from_text text of
                Inl e \<Rightarrow> Inl e
              | Inr (section, task_text) \<Rightarrow>
                  if task_text = [] then Inr (USAGE_REPLY, db)
                  else
                    (let (task_id, db') = add_task (isoformat L (clock 0)) chat_id section task_text db
                     in Inr (added_reply section, db')))))"

section \<open>Case-insensitive matching\<close>

text \<open>
  Case-insensitive matching, in the words of the specification: two texts match when
  their case foldings are equal. \<open>cf\<close> is the case folding of one code point, one or
  more code points as in \<open>str.casefold\<close>.
\<close>

definition casefold_text :: "(nat \<Rightarrow> pystr) \<Rightarrow> pystr \<Rightarrow> pystr" where
  "casefold_text cf s = concat (map cf s)"

definition matches_ignoring_case :: "(nat \<Rightarrow> pystr) \<Rightarrow> pystr \<Rightarrow> pystr \<Rightarrow> bool" where
  "matches_ignoring_case cf a b \<longleftrightarrow> casefold_text cf a = casefold_text cf b"

section \<open>The invariant of the data model\<close>

text \<open>
  The invariant that the specification states for task records: \<open>done_at\<close> is non-null
  if and only if \<open>done\<close> is true (non-zero, for the INTEGER column).
\<close>

definition done_at_invariant :: "store \<Rightarrow> bool" where
  "done_at_invariant db \<longleftrightarrow> (\<forall>t \<in> set (rows db). (t_done_at t \<noteq> None) = (t_done t \<noteq> 0))"

section \<open>The calendar and the texts of times\<close>

text \<open>
  The proleptic Gregorian calendar of \<open>datetime\<close>: the ordinal of a date (1 for 1 January
  of the year 1) and, as \<open>_ord2ymd\<close> computes it, the date of an ordinal.
\<close>

definition is_leap :: "int \<Rightarrow> bool" where
  "is_leap y \<longleftrightarrow> y mod 4 = 0 \<and> (y mod 100 \<noteq> 0 \<or> y mod 400 = 0)"

definition days_before_year :: "int \<Rightarrow> int" where
  "days_before_year y = (y - 1) * 365 + (y - 1) div 4 - (y - 1) div 100 + (y - 1) div 400"

definition days_in_month :: "int \<Rightarrow> int \<Rightarrow> int" where
  "days_in_month y m =
     (if m = 2 then (if is_leap y then 29 else 28)
      else if m = 4 \<or> m = 6 \<or> m = 9 \<or> m = 11 then 30 else 31)"

definition days_before_month :: "int \<Rightarrow> int \<Rightarrow> int" where
  "days_before_month y m = sum_list (map (days_in_month y) [1 .. m - 1])"

definition ymd2ord :: "int \<Rightarrow> int \<Rightarrow> int \<Rightarrow> int" where
  "ymd2ord y m d = days_before_year y + days_before_month y m + d"

definition ord2ymd :: "int \<Rightarrow> int \<times> int \<times> int" where
  "ord2ymd ordinal =
     (let n = ordinal - 1;
          n400 = n div 146097;
          r400 = n mod 146097;
          n100 = r400 div 36524;
          r100 = r400 mod 36524;
          n4 = r100 div 1461;
          r4 = r100 mod 1461;
          n1 = r4 div 365;
          r1 = r4 mod 365;
          year = n400 * 400 + 1 + n100 * 100 + n4 * 4 + n1
      in if n1 = 4 \<or> n100 = 4 then (year - 1, 12, 31)
         else
           (let month = (r1 + 50) div 32;
                preceding = days_before_month year month
            in if preceding > r1
               then (year, month - 1, r1 - (preceding - days_in_month year (month - 1)) + 1)
               else (year, month, r1 - preceding + 1)))"

text \<open>A non-negative number in decimal, filled with zeros to a width (\<open>%02d\<close>, \<open>%04d\<close>).\<close>

definition zpad :: "nat \<Rightarrow> int \<Rightarrow> pystr" where
  "zpad w n = replicate (w - length (str_int n)) 0x30 @ str_int n"

text \<open>
  \<open>d.isoformat()\<close> for a datetime with a zone; \<open>utcoffset d\<close> is its offset from UTC in
  minutes. The microseconds are left out when they are zero.
\<close>

definition py_isoformat :: "(datetime \<Rightarrow> int) \<Rightarrow> datetime \<Rightarrow> pystr" where
  "py_isoformat utcoffset d =
     (case ord2ymd (dt_ordinal d) of (y, m, dd) \<Rightarrow>
        zpad 4 y @ cps ''-'' @ zpad 2 m @ cps ''-'' @ zpad 2 dd @ cps ''T''
          @ zpad 2 (dt_hour d) @ cps '':'' @ zpad 2 (dt_minute d) @ cps '':''
          @ zpad 2 (dt_second d)
          @ (if dt_microsecond d = 0 then [] else cps ''.'' @ zpad 6 (dt_microsecond d))
          @ (if utcoffset d < 0 then cps ''-'' else cps ''+'')
          @ zpad 2 (\<bar>utcoffset d\<bar> div 60) @ cps '':'' @ zpad 2 (\<bar>utcoffset d\<bar> mod 60))"

text \<open>\<open>d.strftime("%d/%m/%Y")\<close>\<close>

definition py_strftime_dmy :: "datetime \<Rightarrow> pystr" where
  "py_strftime_dmy d =
     (case ord2ymd (dt_ordinal d) of (y, m, dd) \<Rightarrow>
        zpad 2 dd @ cps ''/'' @ zpad 2 m @ cps ''/'' @ zpad 4 y)"

text \<open>
  Reading a text that \<open>isoformat\<close> has written,
  \<open>YYYY-MM-DDTHH:MM:SS[.ffffff]+HH:MM\<close>: the number that \<open>n\<close> ASCII digits from position
  \<open>k\<close> on denote, and the fields of the text (year, month, day, hour, minute, second,
  microsecond, offset in minutes). Any other text is not read.
\<close>

definition digits_at :: "pystr \<Rightarrow> nat \<Rightarrow> nat \<Rightarrow> int option" where
  "digits_at s k n =
     (let ds = take n (drop k s)
      in if length ds = n \<and> list_all (\<lambda>c. 0x30 \<le> c \<and> c \<le> 0x39) ds
         then Some (fold (\<lambda>c acc. 10 * acc + (int c - 0x30)) ds 0) else None)"

definition parse_iso :: "pystr \<Rightarrow> (int \<times> int \<times> int \<times> int \<times> int \<times> int \<times> int \<times> int) option" where
  "parse_iso s =
     (let frac = (length s = 32); z = (if frac then 26 else 19)
      in if (length s = 25 \<or> length s = 32) \<and> s ! 4 = 0x2D \<and> s ! 7 = 0x2D \<and> s ! 10 = 0x54 \<and>
            s ! 13 = 0x3A \<and> s ! 16 = 0x3A \<and> (frac \<longrightarrow> s ! 19 = 0x2E) \<and>
            (s ! z = 0x2B \<or> s ! z = 0x2D) \<and> s ! (z + 3) = 0x3A
         then
           (case (digits_at s 0 4, digits_at s 5 2, digits_at s 8 2, digits_at s 11 2,
                  digits_at s 14 2, digits_at s 17 2,
                  if frac then digits_at s 20 6 else Some 0,
                  digits_at s (z + 1) 2, digits_at s (z + 4) 2) of
              (Some y, Some m, Some d, Some h, Some mi, Some sec, Some us, Some oh, Some om) \<Rightarrow>
                if 1 \<le> y \<and> 1 \<le> m \<and> m \<le> 12 \<and> 1 \<le> d \<and> d \<le> days_in_month y m \<and> h < 24 \<and>
                   mi < 60 \<and> sec < 60 \<and> om < 60
                then Some (y, m, d, h, mi, sec, us,
                           (if s ! z = 0x2D then - (oh * 60 + om) else oh * 60 + om))
                else None
            | _ \<Rightarrow> None)
         else None)"

text \<open>
  The instant that such a text denotes: the microseconds of UTC since the midnight before
  the ordinal 1.
\<close>

definition iso_utc_microseconds :: "pystr \<Rightarrow> int option" where
  "iso_utc_microseconds s =
     (case parse_iso s of
        None \<Rightarrow> None
      | Some (y, m, d, h, mi, sec, us, off) \<Rightarrow>
          Some ((((ymd2ord y m d * 24 + h) * 60 + mi - off) * 60 + sec) * 1000000 + us))"

text \<open>
  The value of \<open>datetime(s)\<close> in SQLite (3.46) for such a text. SQLite takes the time
  to UTC and to the nearest millisecond and prints its whole seconds as
  \<open>YYYY-MM-DD HH:MM:SS\<close>: \<open>utc_second s\<close> is that number of seconds, counted from the
  midnight before the ordinal 1, and \<open>second_text\<close> its text. The value is NULL for a
  text that is not read and for a time outside the years 1 to 9999.
\<close>

definition utc_second :: "pystr \<Rightarrow> int option" where
  "utc_second s =
     (case iso_utc_microseconds s of
        None \<Rightarrow> None
      | Some t \<Rightarrow>
          (let secs = ((t + 500) div 1000) div 1000
           in if 86400 \<le> secs \<and> secs < 3652060 * 86400 then Some secs else None))"

definition second_text :: "int \<Rightarrow> pystr" where
  "second_text secs =
     (let r = secs mod 86400
      in case ord2ymd (secs div 86400) of (y, m, d) \<Rightarrow>
           zpad 4 y @ cps ''-'' @ zpad 2 m @ cps ''-'' @ zpad 2 d @ cps '' ''
             @ zpad 2 (r div 3600) @ cps '':'' @ zpad 2 ((r div 60) mod 60)
             @ cps '':'' @ zpad 2 (r mod 60))"

definition sqlite_datetime_text :: "pystr \<Rightarrow> pystr option" where
  "sqlite_datetime_text s = map_option second_text (utc_second s)"

text \<open>
  \<open>datetime.fromisoformat(s).astimezone(TZ)\<close> for such a text; \<open>utcoffset_at t\<close> is the
  offset of the zone, in minutes, at the instant \<open>t\<close>. (\<open>fromisoformat\<close> raises on a
  text it cannot read; the code passes it only what \<open>isoformat\<close> has written.)
\<close>

definition py_fromisoformat_tz :: "(int \<Rightarrow> int) \<Rightarrow> pystr \<Rightarrow> datetime" where
  "py_fromisoformat_tz utcoffset_at s =
     (case iso_utc_microseconds s of
        None \<Rightarrow> \<lparr>dt_ordinal = 1, dt_hour = 0, dt_minute = 0, dt_second = 0, dt_microsecond = 0\<rparr>
      | Some t \<Rightarrow>
          (let w = t + utcoffset_at t * 60000000; r = w mod 86400000000
           in \<lparr>dt_ordinal = w div 86400000000, dt_hour = r div 3600000000,
               dt_minute = (r div 60000000) mod 60, dt_second = (r div 1000000) mod 60,
               dt_microsecond = r mod 1000000\<rparr>))"

text \<open>
  The time functions of the runtime and of SQLite, for a zone given by its offsets:
  \<open>utcoffset d\<close> for a datetime of the zone and \<open>utcoffset_at t\<close> for an instant.
\<close>

definition py_lib :: "(datetime \<Rightarrow> int) \<Rightarrow> (int \<Rightarrow> int) \<Rightarrow> timelib" where
  "py_lib utcoffset utcoffset_at =
     \<lparr>isoformat = py_isoformat utcoffset,
      fromisoformat_tz = py_fromisoformat_tz utcoffset_at,
      strftime_dmy = py_strftime_dmy,
      sqlite_datetime = sqlite_datetime_text\<rparr>"

section \<open>Example inputs\<close>

text \<open>
  A table with the open tasks of the chat 7 out of order, two of them of one section
  and one creation time, a task of another chat and a completed task.
\<close>

definition ex_ts :: "string \<Rightarrow> pystr" where
  "ex_ts day_hm = cps ''2024-01-0'' @ cps day_hm @ cps '':00+02:00''"

definition ex_rows :: "task list" where
  "ex_rows =
     [\<lparr>t_id = 1, t_chat_id = 7, t_section = [0x5DB, 0x5DC, 0x5DC, 0x5D9],
       t_text = cps ''buy milk'', t_created_at = ex_ts ''1T10:00'', t_done = 0,
       t_done_at = None\<rparr>,
      \<lparr>t_id = 5, t_chat_id = 7, t_section = [0x5D3, 0x5D7, 0x5D5, 0x5E3],
       t_text = cps ''a < b'', t_created_at = ex_ts ''1T10:05'', t_done = 0,
       t_done_at = None\<rparr>,
      \<lparr>t_id = 2, t_chat_id = 7, t_section = [0x5D3, 0x5D7, 0x5D5, 0x5E3],
       t_text = cps ''call bank'', t_created_at = ex_ts ''1T10:05'', t_done = 0,
       t_done_at = None\<rparr>,
      \<lparr>t_id = 3, t_chat_id = 7, t_section = [0x5D4, 0x5D9, 0x5D5, 0x5DD],
       t_text = cps ''pay rent'', t_created_at = ex_ts ''1T10:06'', t_done = 0,
       t_done_at = None\<rparr>,
      \<lparr>t_id = 4, t_chat_id = 8, t_section = [0x5D3, 0x5D7, 0x5D5, 0x5E3],
       t_text = cps ''other chat'', t_created_at = ex_ts ''1T09:00'', t_done = 0,
       t_done_at = None\<rparr>,
      \<lparr>t_id = 6, t_chat_id = 7, t_section = [0x5D4, 0x5D9, 0x5D5, 0x5DD],
       t_text = cps ''done one'', t_created_at = ex_ts ''1T08:00'', t_done = 1,
       t_done_at = Some (ex_ts ''2T09:30'')\<rparr>]"

definition ex_db :: store where
  "ex_db = \<lparr>rows = ex_rows, seq = 6\<rparr>"

text \<open>The same table, scanned in the opposite order.\<close>

definition ex_db_rev :: store where
  "ex_db_rev = \<lparr>rows = rev ex_rows, seq = 6\<rparr>"

text \<open>
  Stand-ins for the time functions, for the times of the example (days 1 to 9 of January
  2024, whole seconds, one offset): the ISO text of a datetime, its reading back, the
  label \<open>dd/mm/yyyy\<close>, and the first 19 characters of the text as the value that
  \<open>datetime()\<close> orders by.
\<close>

definition ex_digit :: "pystr \<Rightarrow> nat \<Rightarrow> int" where
  "ex_digit s k = (if k < length s then int (s ! k) - 48 else 0)"

definition ex_two :: "int \<Rightarrow> pystr" where
  "ex_two n = [nat (48 + n div 10), nat (48 + n mod 10)]"

definition ex_isoformat :: "datetime \<Rightarrow> pystr" where
  "ex_isoformat d =
     cps ''2024-01-'' @ ex_two (dt_ordinal d - 738885) @ cps ''T'' @ ex_two (dt_hour d)
       @ cps '':'' @ ex_two (dt_minute d) @ cps '':'' @ ex_two (dt_second d) @ cps ''+02:00''"

definition ex_fromisoformat :: "pystr \<Rightarrow> datetime" where
  "ex_fromisoformat s =
     \<lparr>dt_ordinal = 738885 + 10 * ex_digit s 8 + ex_digit s 9,
      dt_hour = 10 * ex_digit s 11 + ex_digit s 12,
      dt_minute = 10 * ex_digit s 14 + ex_digit s 15,
      dt_second = 10 * ex_digit s 17 + ex_digit s 18,
      dt_microsecond = 0\<rparr>"

definition ex_lib :: timelib where
  "ex_lib =
     \<lparr>isoformat = ex_isoformat,
      fromisoformat_tz = ex_fromisoformat,
      strftime_dmy = (\<lambda>d. ex_two (dt_ordinal d - 738885) @ cps ''/01/2024''),
      sqlite_datetime = (\<lambda>s. if length s < 19 then None else Some (take 19 s))\<rparr>"

text \<open>A clock that stands at 12:00 on 9 January 2024.\<close>

definition ex_clock :: "nat \<Rightarrow> datetime" where
  "ex_clock k =
     \<lparr>dt_ordinal = 738894, dt_hour = 12, dt_minute = 0, dt_second = 0, dt_microsecond = 0\<rparr>"

text \<open>The example table after the task 5 of the chat 7 has been completed.\<close>

definition ex_db_done2 :: store where
  "ex_db_done2 = snd (update_done (ex_ts ''3T08:00'') 7 5 ex_db)"

text \<open>A quarter of a second after midnight, at the start of 9 January 2024.\<close>

definition ex_midnight :: datetime where
  "ex_midnight =
     \<lparr>dt_ordinal = 738894, dt_hour = 0, dt_minute = 0, dt_second = 0, dt_microsecond = 250000\<rparr>"

text \<open>
  A case folding for the example: the letters A to Z go to a to z, the sharp s to ss, and
  every other code point (the Hebrew letters among them) to itself.
\<close>

definition ex_fold :: "nat \<Rightarrow> pystr" where
  "ex_fold c =
     (if 0x41 \<le> c \<and> c \<le> 0x5A then [c + 0x20] else if c = 0xDF then [0x73, 0x73] else [c])"

text \<open>A message with spaces around its words and the first section keyword at its end.\<close>

definition ex_message :: pystr where
  "ex_message = [0x20] @ cps ''feed  cat'' @ [0x09, 0x5D3, 0x5D7, 0x5D5, 0x5E3, 0x20]"



text \<open>
  Two tasks added in the night of 27 October 2024, when the clocks of Asia/Jerusalem go
  back from 02:00 (+03:00) to 01:00 (+02:00): the first at 01:30 before the change, the
  second forty minutes later, at 01:10 after it.
\<close>

definition ex_dst_now1 :: datetime where
  "ex_dst_now1 =
     \<lparr>dt_ordinal = 739186, dt_hour = 1, dt_minute = 30, dt_second = 0, dt_microsecond = 250000\<rparr>"

definition ex_dst_now2 :: datetime where
  "ex_dst_now2 =
     \<lparr>dt_ordinal = 739186, dt_hour = 1, dt_minute = 10, dt_second = 0, dt_microsecond = 750000\<rparr>"

definition ex_dst_db :: store where
  "ex_dst_db =
     snd (add_task (py_isoformat (\<lambda>d. 120) ex_dst_now2) 7 [0x5DB, 0x5DC, 0x5DC, 0x5D9]
            (cps ''second'')
            (snd (add_task (py_isoformat (\<lambda>d. 180) ex_dst_now1) 7 [0x5DB, 0x5DC, 0x5DC, 0x5D9]
                    (cps ''first'') \<lparr>rows = [], seq = 0\<rparr>)))"

section \<open>Ordering and display numbers: proofs\<close>

lemma SECTION_PRIORITY_eq:
  "SECTION_PRIORITY s =
     (if s = SECTION_ORDER ! 3 then Some 3 else if s = SECTION_ORDER ! 2 then Some 2
      else if s = SECTION_ORDER ! 1 then Some 1 else if s = SECTION_ORDER ! 0 then Some 0
      else None)"
  by (simp add: SECTION_PRIORITY_def SECTION_ORDER_def enumerate_eq_zip upt_rec)

lemma SECTION_PRIORITY_None: "SECTION_PRIORITY s = None \<longleftrightarrow> s \<notin> set SECTION_ORDER"
  by (simp add: SECTION_PRIORITY_eq) (simp add: SECTION_ORDER_def)

lemma key_known:
  "key (i, SECTION_ORDER ! 0, t, ca) = (0, ca, i)"
  "key (i, SECTION_ORDER ! 1, t, ca) = (1, ca, i)"
  "key (i, SECTION_ORDER ! 2, t, ca) = (2, ca, i)"
  "key (i, SECTION_ORDER ! 3, t, ca) = (3, ca, i)"
  by (simp_all add: key_def SECTION_PRIORITY_eq) (simp_all add: SECTION_ORDER_def)

lemma key_unknown: "s \<notin> set SECTION_ORDER \<Longrightarrow> key (i, s, t, ca) = (999, ca, i)"
  by (simp add: key_def SECTION_PRIORITY_None [symmetric])

lemma key_less_iff:
  "key (i, s, t, ca) < key (i', s', t', ca') \<longleftrightarrow>
     fst (key (i, s, t, ca)) < fst (key (i', s', t', ca')) \<or>
     fst (key (i, s, t, ca)) = fst (key (i', s', t', ca')) \<and> (ca < ca' \<or> ca = ca' \<and> i < i')"
  by (auto simp: key_def Let_def)

lemma enumerate_numbering:
  "map (\<lambda>(idx, r). (int idx, r)) (List.enumerate n xs) =
     zip [int n .. int n + int (length xs) - 1] xs"
proof (induction xs arbitrary: n)
  case Nil
  then show ?case by simp
next
  case (Cons x xs)
  have "[int n .. int n + int (length (x # xs)) - 1] =
          int n # [int (Suc n) .. int (Suc n) + int (length xs) - 1]"
    by (simp add: upto_rec1 add.commute)
  then show ?case using Cons.IH [of "Suc n"] by simp
qed

lemma numbered_zip:
  "ordered_open_tasks_with_numbers c db =
     zip [1 .. int (length (get_open_tasks c db))] (sort_key key (get_open_tasks c db))"
  using enumerate_numbering [of 1 "sort_key key (get_open_tasks c db)"]
  by (simp add: ordered_open_tasks_with_numbers_def Let_def)

lemma numbered_snd:
  "map snd (ordered_open_tasks_with_numbers c db) = sort_key key (get_open_tasks c db)"
  by (simp add: numbered_zip)

lemma numbered_fst:
  "map fst (ordered_open_tasks_with_numbers c db) = [1 .. int (length (get_open_tasks c db))]"
  by (simp add: numbered_zip)

lemma numbered_length:
  "length (ordered_open_tasks_with_numbers c db) = length (get_open_tasks c db)"
  by (simp add: numbered_zip)

lemma numbered_nth:
  assumes "k < length (get_open_tasks c db)"
  shows "ordered_open_tasks_with_numbers c db ! k =
           (int k + 1, sort_key key (get_open_tasks c db) ! k)"
  using assms by (simp add: numbered_zip)

lemma numbered_sorted:
  "sorted (map (\<lambda>e. key (snd e)) (ordered_open_tasks_with_numbers c db))"
proof -
  have "map (\<lambda>e. key (snd e)) (ordered_open_tasks_with_numbers c db) =
          map key (map snd (ordered_open_tasks_with_numbers c db))"
    by simp
  then show ?thesis unfolding numbered_snd by simp
qed

lemma numbered_key_less:
  assumes e1: "e1 \<in> set (ordered_open_tasks_with_numbers c db)"
    and e2: "e2 \<in> set (ordered_open_tasks_with_numbers c db)"
    and less: "key (snd e1) < key (snd e2)"
  shows "fst e1 < fst e2"
proof -
  let ?N = "ordered_open_tasks_with_numbers c db"
  let ?S = "sort_key key (get_open_tasks c db)"
  obtain k1 where k1: "k1 < length ?N" "?N ! k1 = e1"
    using e1 by (auto simp: in_set_conv_nth)
  obtain k2 where k2: "k2 < length ?N" "?N ! k2 = e2"
    using e2 by (auto simp: in_set_conv_nth)
  have l1: "k1 < length (get_open_tasks c db)" and l2: "k2 < length (get_open_tasks c db)"
    using k1(1) k2(1) by (simp_all add: numbered_length)
  have v1: "e1 = (int k1 + 1, ?S ! k1)" using numbered_nth [OF l1] k1(2) by simp
  have v2: "e2 = (int k2 + 1, ?S ! k2)" using numbered_nth [OF l2] k2(2) by simp
  have "k1 < k2"
  proof (rule ccontr)
    assume "\<not> k1 < k2"
    then have "k2 \<le> k1" by simp
    moreover have "sorted (map key ?S)" by simp
    ultimately have "map key ?S ! k2 \<le> map key ?S ! k1"
      using l1 by (intro sorted_nth_mono) simp_all
    then have "key (?S ! k2) \<le> key (?S ! k1)" using l1 l2 by simp
    then show False using less v1 v2 by simp
  qed
  then show ?thesis using v1 v2 by simp
qed

lemma key_id: "key r = key r' \<Longrightarrow> fst r = fst r'"
  by (cases r, cases r') (simp add: key_def Let_def)

lemma filter_key_single:
  assumes "distinct (map fst zs)" "k \<in> set zs"
  shows "filter (\<lambda>x. key k = key x) zs = [k]"
proof -
  have "filter (\<lambda>x. key k = key x) zs = filter (\<lambda>x. x = k) zs"
  proof (rule filter_cong [OF refl])
    fix x assume x: "x \<in> set zs"
    have "inj_on fst (set zs)" using assms(1) by (simp add: distinct_map)
    then have "fst k = fst x \<Longrightarrow> x = k" using x assms(2) by (simp add: inj_on_def)
    then show "(key k = key x) = (x = k)" using key_id [of k x] by blast
  qed
  also have "\<dots> = [k]"
  proof -
    have "distinct zs" using assms(1) by (simp add: distinct_map)
    then show ?thesis using assms(2) by (induction zs) (auto simp: filter_empty_conv)
  qed
  finally show ?thesis .
qed

lemma sort_key_perm_unique:
  assumes "distinct (map fst xs)" "mset ys = mset xs"
  shows "sort_key key ys = sort_key key xs"
proof (rule properties_for_sort_key)
  show "mset (sort_key key xs) = mset ys" using assms(2) by simp
  show "sorted (map key (sort_key key xs))" by simp
  fix k assume k: "k \<in> set (sort_key key xs)"
  have sets: "set ys = set xs" using assms(2) by (rule mset_eq_setD)
  have dy: "distinct (map fst ys)"
  proof -
    have "mset (map fst ys) = mset (map fst xs)" using assms(2) by simp
    then show ?thesis using assms(1) mset_eq_imp_distinct_iff by blast
  qed
  have "filter (\<lambda>x. key k = key x) (sort_key key xs) = filter (\<lambda>x. key k = key x) xs"
    using sort_key_stable [of key "key k" xs] by (simp add: eq_commute)
  also have "\<dots> = [k]" using filter_key_single [OF assms(1)] k by simp
  also have "\<dots> = filter (\<lambda>x. key k = key x) ys"
    using filter_key_single [OF dy, of k] k sets by simp
  finally show "filter (\<lambda>x. key k = key x) (sort_key key xs) = filter (\<lambda>x. key k = key x) ys" .
qed

lemma numbered_deterministic:
  assumes "distinct (map fst (get_open_tasks c db))"
    and "mset (get_open_tasks c db') = mset (get_open_tasks c db)"
  shows "ordered_open_tasks_with_numbers c db' = ordered_open_tasks_with_numbers c db"
proof -
  have "length (get_open_tasks c db') = length (get_open_tasks c db)"
    using assms(2) by (rule mset_eq_length)
  then show ?thesis
    using sort_key_perm_unique [OF assms] by (simp add: numbered_zip)
qed

text \<open>
  The sequence of \<open>ordered_open_tasks_with_numbers\<close> holds exactly the open tasks
  of the conversation, sorted by \<open>key\<close>; the key of a row is (rank of its section,
  \<open>created_at\<close>, \<open>id\<close>), with the ranks 0, 1, 2, 3 for the four sections of
  \<open>SECTION_ORDER\<close> and 999 for any other section, and keys are compared
  component by component (\<open>created_at\<close> as the stored text). A row with a smaller key has
  the smaller display number; so of two open tasks of one section and one creation
  time, the one with the lower id comes first. When the ids are distinct, the result
  does not depend on the order in which the table yields the open rows.
\<close>

theorem ordered_open_tasks_sorted_by_key:
  "mset (map snd (ordered_open_tasks_with_numbers c db)) = mset (get_open_tasks c db) \<and>
   sorted (map (\<lambda>e. key (snd e)) (ordered_open_tasks_with_numbers c db)) \<and>
   key (i, SECTION_ORDER ! 0, t, ca) = (0, ca, i) \<and>
   key (i, SECTION_ORDER ! 1, t, ca) = (1, ca, i) \<and>
   key (i, SECTION_ORDER ! 2, t, ca) = (2, ca, i) \<and>
   key (i, SECTION_ORDER ! 3, t, ca) = (3, ca, i) \<and>
   (s \<notin> set SECTION_ORDER \<longrightarrow> key (i, s, t, ca) = (999, ca, i)) \<and>
   (key (i, s, t, ca) < key (i', s', t', ca') \<longleftrightarrow>
      fst (key (i, s, t, ca)) < fst (key (i', s', t', ca')) \<or>
      fst (key (i, s, t, ca)) = fst (key (i', s', t', ca')) \<and> (ca < ca' \<or> ca = ca' \<and> i < i')) \<and>
   (e1 \<in> set (ordered_open_tasks_with_numbers c db) \<and>
    e2 \<in> set (ordered_open_tasks_with_numbers c db) \<and> key (snd e1) < key (snd e2)
      \<longrightarrow> fst e1 < fst e2) \<and>
   ((n1, i1, sec, t1, cr) \<in> set (ordered_open_tasks_with_numbers c db) \<and>
    (n2, i2, sec, t2, cr) \<in> set (ordered_open_tasks_with_numbers c db) \<and> i1 < i2
      \<longrightarrow> n1 < n2) \<and>
   (distinct (map fst (get_open_tasks c db)) \<and>
    mset (get_open_tasks c db') = mset (get_open_tasks c db)
      \<longrightarrow> ordered_open_tasks_with_numbers c db' = ordered_open_tasks_with_numbers c db)"
proof -
  have perm: "mset (map snd (ordered_open_tasks_with_numbers c db)) = mset (get_open_tasks c db)"
    by (simp add: numbered_snd)
  have tie: "n1 < n2"
    if "(n1, i1, sec, t1, cr) \<in> set (ordered_open_tasks_with_numbers c db)"
      and "(n2, i2, sec, t2, cr) \<in> set (ordered_open_tasks_with_numbers c db)" and "i1 < i2"
  proof -
    have "key (i1, sec, t1, cr) < key (i2, sec, t2, cr)"
      using that(3) by (simp add: key_less_iff) (simp add: key_def Let_def)
    then show ?thesis using numbered_key_less [OF that(1) that(2)] by simp
  qed
  show ?thesis
    using perm numbered_sorted [of c db] key_known [of i t ca] key_unknown [of s i t ca]
      key_less_iff [of i s t ca i' s' t' ca'] numbered_key_less [of e1 c db e2] tie
      numbered_deterministic [of c db db']
    by blast
qed


lemmas ex_defs = ex_db_def ex_db_rev_def ex_rows_def ex_ts_def cps_def
lemmas order_defs = ordered_open_tasks_with_numbers_def get_open_tasks_def key_def
  SECTION_PRIORITY_eq SECTION_ORDER_def

theorem ordered_open_tasks_sorted_by_key_witness:
  "(1, 2, SECTION_ORDER ! 0, cps ''call bank'', ex_ts ''1T10:05'')
     \<in> set (ordered_open_tasks_with_numbers 7 ex_db) \<and>
   (2, 5, SECTION_ORDER ! 0, cps ''a < b'', ex_ts ''1T10:05'')
     \<in> set (ordered_open_tasks_with_numbers 7 ex_db) \<and>
   (2::int) < 5 \<and> (1::int) < 2 \<and>
   sorted (map (\<lambda>e. key (snd e)) (ordered_open_tasks_with_numbers 7 ex_db)) \<and>
   cps ''work'' \<notin> set SECTION_ORDER \<and>
   key (9, cps ''work'', cps ''x'', ex_ts ''1T10:05'') = (999, ex_ts ''1T10:05'', 9) \<and>
   distinct (map fst (get_open_tasks 7 ex_db)) \<and>
   mset (get_open_tasks 7 ex_db_rev) = mset (get_open_tasks 7 ex_db) \<and>
   ordered_open_tasks_with_numbers 7 ex_db_rev = ordered_open_tasks_with_numbers 7 ex_db"
proof -
  have a: "(1, 2, SECTION_ORDER ! 0, cps ''call bank'', ex_ts ''1T10:05'')
     \<in> set (ordered_open_tasks_with_numbers 7 ex_db)"
    by (simp add: order_defs ex_defs)
  have b: "(2, 5, SECTION_ORDER ! 0, cps ''a < b'', ex_ts ''1T10:05'')
     \<in> set (ordered_open_tasks_with_numbers 7 ex_db)"
    by (simp add: order_defs ex_defs)
  have u: "cps ''work'' \<notin> set SECTION_ORDER"
    by (simp add: SECTION_ORDER_def cps_def)
  have d: "distinct (map fst (get_open_tasks 7 ex_db))"
    by (simp add: get_open_tasks_def ex_defs)
  have m: "mset (get_open_tasks 7 ex_db_rev) = mset (get_open_tasks 7 ex_db)"
    by (simp add: get_open_tasks_def ex_defs)
  show ?thesis
    using ordered_open_tasks_sorted_by_key [of 7 ex_db 9 "cps ''x''" "ex_ts ''1T10:05''"
        "cps ''work''" 9 "cps ''work''" "cps ''x''" "ex_ts ''1T10:05''"
        "(1, 2, SECTION_ORDER ! 0, cps ''call bank'', ex_ts ''1T10:05'')"
        "(2, 5, SECTION_ORDER ! 0, cps ''a < b'', ex_ts ''1T10:05'')"
        1 2 "SECTION_ORDER ! 0" "cps ''call bank''" "ex_ts ''1T10:05''" 2 5 "cps ''a < b''"
        ex_db_rev]
      a b u d m
    by simp
qed

text \<open>
  C2. The display numbers of the sequence are 1, 2, ..., N in this order, N the number of
  open tasks of the conversation: no gap and no duplicate. They are computed from the
  table at each call and stored nowhere: a listing request returns the table as it was.
  When the ids are distinct, two tables with the same open tasks of the conversation
  give the same sequence, numbers included.
\<close>

theorem display_numbers_contiguous:
  "map fst (ordered_open_tasks_with_numbers c db) = [1 .. int (length (get_open_tasks c db))] \<and>
   length (ordered_open_tasks_with_numbers c db) = length (get_open_tasks c db) \<and>
   distinct (map fst (ordered_open_tasks_with_numbers c db)) \<and>
   fst ` set (ordered_open_tasks_with_numbers c db) = {1 .. int (length (get_open_tasks c db))} \<and>
   (is_list_command (normalize_text m) \<longrightarrow>
      on_text L clock c m db = Inr (format_open_tasks_message L clock c db, db)) \<and>
   (distinct (map fst (get_open_tasks c db)) \<and>
    mset (get_open_tasks c db') = mset (get_open_tasks c db)
      \<longrightarrow> ordered_open_tasks_with_numbers c db' = ordered_open_tasks_with_numbers c db)"
proof -
  have d: "distinct (map fst (ordered_open_tasks_with_numbers c db))"
    unfolding numbered_fst by simp
  have s: "fst ` set (ordered_open_tasks_with_numbers c db) = {1 .. int (length (get_open_tasks c db))}"
    using arg_cong [OF numbered_fst [of c db], of set] by simp
  have l: "is_list_command (normalize_text m) \<Longrightarrow>
      on_text L clock c m db = Inr (format_open_tasks_message L clock c db, db)"
    by (simp add: on_text_def)
  show ?thesis
    using numbered_fst [of c db] numbered_length [of c db] d s l
      numbered_deterministic [of c db db']
    by blast
qed

theorem display_numbers_contiguous_witness:
  "map fst (ordered_open_tasks_with_numbers 7 ex_db) = [1, 2, 3, 4] \<and>
   length (get_open_tasks 7 ex_db) = 4 \<and>
   is_list_command (normalize_text (Some [0x20, 0x5E8, 0x5E9, 0x5D9, 0x5DE, 0x5D4, 0x0A])) \<and>
   on_text ex_lib ex_clock 7 (Some [0x20, 0x5E8, 0x5E9, 0x5D9, 0x5DE, 0x5D4, 0x0A]) ex_db =
     Inr (format_open_tasks_message ex_lib ex_clock 7 ex_db, ex_db) \<and>
   distinct (map fst (get_open_tasks 7 ex_db)) \<and>
   mset (get_open_tasks 7 ex_db_rev) = mset (get_open_tasks 7 ex_db) \<and>
   ordered_open_tasks_with_numbers 7 ex_db_rev = ordered_open_tasks_with_numbers 7 ex_db"
proof -
  have n: "length (get_open_tasks 7 ex_db) = 4"
    by (simp add: get_open_tasks_def ex_defs)
  have u: "[1 .. int 4] = [1, 2, 3, 4]"
    by (simp add: upto_rec1)
  have c: "is_list_command (normalize_text (Some [0x20, 0x5E8, 0x5E9, 0x5D9, 0x5DE, 0x5D4, 0x0A]))"
    by (simp add: is_list_command_def normalize_text_def LIST_COMMANDS_def str_strip_def isspace_def)
  have d: "distinct (map fst (get_open_tasks 7 ex_db))"
    by (simp add: get_open_tasks_def ex_defs)
  have m: "mset (get_open_tasks 7 ex_db_rev) = mset (get_open_tasks 7 ex_db)"
    by (simp add: get_open_tasks_def ex_defs)
  show ?thesis
    using display_numbers_contiguous [of 7 ex_db "Some [0x20, 0x5E8, 0x5E9, 0x5D9, 0x5DE, 0x5D4, 0x0A]"
        ex_lib ex_clock ex_db_rev] n u c d m
    by simp
qed

section \<open>Completion: proofs\<close>

lemma find_unique_fst:
  assumes "distinct (map fst xs)" "(a, b) \<in> set xs"
  shows "find (\<lambda>x. fst x = a) xs = Some (a, b)"
  using assms by (induction xs) (auto simp: image_iff)

lemma numbered_find:
  assumes "(n, r) \<in> set (ordered_open_tasks_with_numbers c db)"
  shows "find (\<lambda>x. fst x = n) (ordered_open_tasks_with_numbers c db) = Some (n, r)"
proof (rule find_unique_fst [OF _ assms])
  show "distinct (map fst (ordered_open_tasks_with_numbers c db))"
    unfolding numbered_fst by simp
qed

lemma numbered_find_None:
  assumes "n < 1 \<or> int (length (get_open_tasks c db)) < n"
  shows "find (\<lambda>x. fst x = n) (ordered_open_tasks_with_numbers c db) = None"
proof -
  have "fst ` set (ordered_open_tasks_with_numbers c db) = {1 .. int (length (get_open_tasks c db))}"
    using arg_cong [OF numbered_fst [of c db], of set] by simp
  then have "n \<notin> fst ` set (ordered_open_tasks_with_numbers c db)" using assms by auto
  then have "\<not> (\<exists>x. x \<in> set (ordered_open_tasks_with_numbers c db) \<and> fst x = n)"
    by (auto simp: image_iff)
  then show ?thesis unfolding find_None_iff by blast
qed

lemma numbered_in_range:
  assumes "1 \<le> n" "n \<le> int (length (get_open_tasks c db))"
  shows "\<exists>r. (n, r) \<in> set (ordered_open_tasks_with_numbers c db)"
proof -
  have "fst ` set (ordered_open_tasks_with_numbers c db) = {1 .. int (length (get_open_tasks c db))}"
    using arg_cong [OF numbered_fst [of c db], of set] by simp
  then have "n \<in> fst ` set (ordered_open_tasks_with_numbers c db)" using assms by simp
  then show ?thesis by force
qed

lemma numbered_row_open:
  assumes "(n, i, s, t, ca) \<in> set (ordered_open_tasks_with_numbers c db)"
  shows "\<exists>x \<in> set (rows db). t_chat_id x = c \<and> t_id x = i \<and> t_done x = 0"
proof -
  have "(i, s, t, ca) \<in> set (map snd (ordered_open_tasks_with_numbers c db))"
    using assms by force
  then have "(i, s, t, ca) \<in> set (get_open_tasks c db)"
    unfolding numbered_snd by simp
  then show ?thesis by (auto simp: get_open_tasks_def)
qed

lemma update_done_miss:
  assumes "\<forall>x \<in> set (rows db). \<not> (t_chat_id x = c \<and> t_id x = i \<and> t_done x = 0)"
  shows "update_done now c i db = (0, db)"
proof -
  have "filter (\<lambda>t. t_chat_id t = c \<and> t_id t = i \<and> t_done t = 0) (rows db) = []"
    using assms by (auto simp: filter_empty_conv)
  moreover have "map (\<lambda>t. if t_chat_id t = c \<and> t_id t = i \<and> t_done t = 0
                      then t\<lparr>t_done := 1, t_done_at := Some now\<rparr> else t) (rows db) = rows db"
    using assms by (intro map_idI) auto
  ultimately show ?thesis by (simp add: update_done_def Let_def)
qed

lemma update_done_hit:
  assumes "x \<in> set (rows db)" "t_chat_id x = c" "t_id x = i" "t_done x = 0"
  shows "0 < fst (update_done now c i db)"
proof -
  have "x \<in> set (filter (\<lambda>t. t_chat_id t = c \<and> t_id t = i \<and> t_done t = 0) (rows db))"
    using assms by simp
  then have "0 < length (filter (\<lambda>t. t_chat_id t = c \<and> t_id t = i \<and> t_done t = 0) (rows db))"
    by (rule length_pos_if_in_set)
  then show ?thesis by (simp add: update_done_def Let_def)
qed

lemma update_done_rows:
  "rows (snd (update_done now c i db)) =
     map (\<lambda>t. if t_chat_id t = c \<and> t_id t = i \<and> t_done t = 0
              then t\<lparr>t_done := 1, t_done_at := Some now\<rparr> else t) (rows db)"
  by (simp add: update_done_def Let_def)

lemma update_done_closed:
  "\<forall>x \<in> set (rows (snd (update_done now c i db))). \<not> (t_chat_id x = c \<and> t_id x = i \<and> t_done x = 0)"
proof
  fix x assume "x \<in> set (rows (snd (update_done now c i db)))"
  then obtain t where t: "t \<in> set (rows db)"
    and x: "x = (if t_chat_id t = c \<and> t_id t = i \<and> t_done t = 0
                 then t\<lparr>t_done := 1, t_done_at := Some now\<rparr> else t)"
    unfolding update_done_rows by (auto simp only: set_map image_iff)
  show "\<not> (t_chat_id x = c \<and> t_id x = i \<and> t_done x = 0)"
  proof (cases "t_chat_id t = c \<and> t_id t = i \<and> t_done t = 0")
    case True
    have "(if t_chat_id t = c \<and> t_id t = i \<and> t_done t = 0
           then t\<lparr>t_done := 1, t_done_at := Some now\<rparr> else t) =
          t\<lparr>t_done := 1, t_done_at := Some now\<rparr>"
      using True by (rule if_P)
    then have "x = t\<lparr>t_done := 1, t_done_at := Some now\<rparr>" using x by (simp only:)
    then have "t_done x = 1" by simp
    then show ?thesis by simp
  next
    case False
    have "(if t_chat_id t = c \<and> t_id t = i \<and> t_done t = 0
           then t\<lparr>t_done := 1, t_done_at := Some now\<rparr> else t) = t"
      using False by (rule if_not_P)
    then have "x = t" using x by (simp only:)
    then show ?thesis using False by blast
  qed
qed

lemma update_done_twice:
  "update_done now' c i (snd (update_done now c i db)) = (0, snd (update_done now c i db))"
  by (rule update_done_miss) (rule update_done_closed)

lemma mark_done_steps_found:
  assumes "(n, i, s, t, ca) \<in> set (ordered_open_tasks_with_numbers c db)"
  shows "mark_done_steps now c n db db_upd =
           (0 < fst (update_done now c i db_upd), snd (update_done now c i db_upd))"
  using numbered_find [OF assms]
  by (simp add: mark_done_steps_def Let_def split_def)

lemma mark_done_steps_not_found:
  assumes "n < 1 \<or> int (length (get_open_tasks c db)) < n"
  shows "mark_done_steps now c n db db_upd = (False, db_upd)"
  using numbered_find_None [OF assms] by (simp add: mark_done_steps_def Let_def)

text \<open>
  C3. Completion by display number never raises: its result is a truth value and the
  table. A number outside 1..N gives \<open>False\<close> and the table unchanged. When the number
  resolves to a task id that has no open row of the conversation in the table at the
  moment of the UPDATE, the UPDATE changes no row and the result is \<open>False\<close>, the table
  unchanged. A number in 1..N, with no writer in between, gives \<open>True\<close>; a second
  completion that resolved the same number from the same table and runs after the
  first gives \<open>False\<close> and changes nothing.
\<close>

theorem mark_done_failure_modes:
  "((display_no < 1 \<or> int (length (get_open_tasks c db)) < display_no) \<longrightarrow>
      mark_done_by_display_number now c display_no db = (False, db) \<and>
      mark_done_steps now c display_no db db_upd = (False, db_upd)) \<and>
   ((display_no, task_id, sec, txt, cr) \<in> set (ordered_open_tasks_with_numbers c db) \<and>
    (\<forall>x \<in> set (rows db_upd). \<not> (t_chat_id x = c \<and> t_id x = task_id \<and> t_done x = 0)) \<longrightarrow>
      update_done now c task_id db_upd = (0, db_upd) \<and>
      mark_done_steps now c display_no db db_upd = (False, db_upd)) \<and>
   (1 \<le> display_no \<and> display_no \<le> int (length (get_open_tasks c db)) \<longrightarrow>
      fst (mark_done_by_display_number now c display_no db) = True \<and>
      mark_done_steps now' c display_no db (snd (mark_done_by_display_number now c display_no db)) =
        (False, snd (mark_done_by_display_number now c display_no db)))"
proof -
  have a: "mark_done_by_display_number now c display_no db = (False, db) \<and>
      mark_done_steps now c display_no db db_upd = (False, db_upd)"
    if "display_no < 1 \<or> int (length (get_open_tasks c db)) < display_no"
    using mark_done_steps_not_found [OF that] by (simp add: mark_done_by_display_number_def)
  have b: "update_done now c task_id db_upd = (0, db_upd) \<and>
      mark_done_steps now c display_no db db_upd = (False, db_upd)"
    if "(display_no, task_id, sec, txt, cr) \<in> set (ordered_open_tasks_with_numbers c db)"
      and "\<forall>x \<in> set (rows db_upd). \<not> (t_chat_id x = c \<and> t_id x = task_id \<and> t_done x = 0)"
    using mark_done_steps_found [OF that(1)] update_done_miss [OF that(2)] by simp
  have c: "fst (mark_done_by_display_number now c display_no db) = True \<and>
      mark_done_steps now' c display_no db (snd (mark_done_by_display_number now c display_no db)) =
        (False, snd (mark_done_by_display_number now c display_no db))"
    if r1: "1 \<le> display_no" and r2: "display_no \<le> int (length (get_open_tasks c db))"
  proof -
    obtain i s t ca where e: "(display_no, i, s, t, ca) \<in> set (ordered_open_tasks_with_numbers c db)"
      using numbered_in_range [OF r1 r2] by auto
    obtain x where x: "x \<in> set (rows db)" "t_chat_id x = c" "t_id x = i" "t_done x = 0"
      using numbered_row_open [OF e] by auto
    have first: "mark_done_by_display_number now c display_no db =
        (True, snd (update_done now c i db))"
      using mark_done_steps_found [OF e, of now db] update_done_hit [OF x, of now]
      by (simp add: mark_done_by_display_number_def)
    have "mark_done_steps now' c display_no db (snd (update_done now c i db)) =
        (False, snd (update_done now c i db))"
      using mark_done_steps_found [OF e, of now' "snd (update_done now c i db)"]
        update_done_twice [of now' c i now db]
      by simp
    then show ?thesis using first by simp
  qed
  have A: "(display_no < 1 \<or> int (length (get_open_tasks c db)) < display_no) \<longrightarrow>
      mark_done_by_display_number now c display_no db = (False, db) \<and>
      mark_done_steps now c display_no db db_upd = (False, db_upd)"
    by (rule impI) (rule a)
  have B: "((display_no, task_id, sec, txt, cr) \<in> set (ordered_open_tasks_with_numbers c db) \<and>
    (\<forall>x \<in> set (rows db_upd). \<not> (t_chat_id x = c \<and> t_id x = task_id \<and> t_done x = 0)) \<longrightarrow>
      update_done now c task_id db_upd = (0, db_upd) \<and>
      mark_done_steps now c display_no db db_upd = (False, db_upd))"
    by (rule impI, elim conjE, rule b)
  have C: "(1 \<le> display_no \<and> display_no \<le> int (length (get_open_tasks c db)) \<longrightarrow>
      fst (mark_done_by_display_number now c display_no db) = True \<and>
      mark_done_steps now' c display_no db (snd (mark_done_by_display_number now c display_no db)) =
        (False, snd (mark_done_by_display_number now c display_no db)))"
    by (rule impI, elim conjE, rule c)
  show ?thesis by (rule conjI [OF A conjI [OF B C]])
qed


theorem mark_done_failure_modes_witness:
  "((0::int) < 1 \<or> int (length (get_open_tasks 7 ex_db)) < 0) \<and>
   mark_done_by_display_number (ex_ts ''3T08:00'') 7 0 ex_db = (False, ex_db) \<and>
   (2, 5, SECTION_ORDER ! 0, cps ''a < b'', ex_ts ''1T10:05'')
     \<in> set (ordered_open_tasks_with_numbers 7 ex_db) \<and>
   list_all (\<lambda>x. \<not> (t_chat_id x = 7 \<and> t_id x = 5 \<and> t_done x = 0)) (rows ex_db_done2) \<and>
   mark_done_steps (ex_ts ''3T08:01'') 7 2 ex_db ex_db_done2 = (False, ex_db_done2) \<and>
   ((1::int) \<le> 2 \<and> 2 \<le> int (length (get_open_tasks 7 ex_db))) \<and>
   fst (mark_done_by_display_number (ex_ts ''3T08:00'') 7 2 ex_db) = True \<and>
   mark_done_steps (ex_ts ''3T08:01'') 7 2 ex_db
       (snd (mark_done_by_display_number (ex_ts ''3T08:00'') 7 2 ex_db)) =
     (False, snd (mark_done_by_display_number (ex_ts ''3T08:00'') 7 2 ex_db))"
proof -
  have n: "length (get_open_tasks 7 ex_db) = 4"
    by (simp add: get_open_tasks_def ex_defs)
  have h1: "(0::int) < 1 \<or> int (length (get_open_tasks 7 ex_db)) < 0"
    by simp
  have h2: "(1::int) \<le> 2 \<and> 2 \<le> int (length (get_open_tasks 7 ex_db))"
    using n by simp
  have e: "(2, 5, SECTION_ORDER ! 0, cps ''a < b'', ex_ts ''1T10:05'')
     \<in> set (ordered_open_tasks_with_numbers 7 ex_db)"
    by (simp add: order_defs ex_defs)
  have c: "\<forall>x \<in> set (rows ex_db_done2). \<not> (t_chat_id x = 7 \<and> t_id x = 5 \<and> t_done x = 0)"
    by (simp add: ex_db_done2_def update_done_def ex_db_def ex_rows_def)
  have c': "list_all (\<lambda>x. \<not> (t_chat_id x = 7 \<and> t_id x = 5 \<and> t_done x = 0)) (rows ex_db_done2)"
    using c by (simp only: list_all_iff)
  note A = mark_done_failure_modes [of 0 7 ex_db "ex_ts ''3T08:00''" ex_db, THEN conjunct1,
      rule_format, OF h1, THEN conjunct1]
  note B = mark_done_failure_modes [of 2 7 ex_db "ex_ts ''3T08:01''" ex_db_done2 5
      "SECTION_ORDER ! 0" "cps ''a < b''" "ex_ts ''1T10:05''", THEN conjunct2, THEN conjunct1,
      rule_format, OF conjI, OF e c, THEN conjunct2]
  note C = mark_done_failure_modes [of 2 7 ex_db "ex_ts ''3T08:00''" ex_db 5
      "SECTION_ORDER ! 0" "cps ''a < b''" "ex_ts ''1T10:05''" "ex_ts ''3T08:01''",
      THEN conjunct2, THEN conjunct2, rule_format, OF h2]
  show ?thesis
    using h1 A e c' B h2 [THEN conjunct1] h2 [THEN conjunct2] C [THEN conjunct1] C [THEN conjunct2]
    by (intro conjI) assumption+
qed

section \<open>The invariant: proofs\<close>

lemma add_task_rows:
  "rows (snd (add_task now c s t db)) =
     rows db @ [\<lparr>t_id = fst (add_task now c s t db), t_chat_id = c, t_section = s,
                 t_text = str_strip t, t_created_at = now, t_done = 0, t_done_at = None\<rparr>]"
  by (simp add: add_task_def Let_def)

lemma inv_add_task:
  assumes "done_at_invariant db"
  shows "done_at_invariant (snd (add_task now c s t db))"
  using assms unfolding done_at_invariant_def add_task_rows by simp

lemma inv_update_done:
  assumes "done_at_invariant db"
  shows "done_at_invariant (snd (update_done now c i db))"
  unfolding done_at_invariant_def update_done_rows
proof
  fix x
  assume "x \<in> set (map (\<lambda>t. if t_chat_id t = c \<and> t_id t = i \<and> t_done t = 0
              then t\<lparr>t_done := 1, t_done_at := Some now\<rparr> else t) (rows db))"
  then obtain t where t: "t \<in> set (rows db)"
    and x: "x = (if t_chat_id t = c \<and> t_id t = i \<and> t_done t = 0
                 then t\<lparr>t_done := 1, t_done_at := Some now\<rparr> else t)"
    by (auto simp only: set_map image_iff)
  have p: "(t_done_at t \<noteq> None) = (t_done t \<noteq> 0)"
    using assms t by (simp add: done_at_invariant_def)
  show "(t_done_at x \<noteq> None) = (t_done x \<noteq> 0)"
  proof (cases "t_chat_id t = c \<and> t_id t = i \<and> t_done t = 0")
    case True
    have "(if t_chat_id t = c \<and> t_id t = i \<and> t_done t = 0
           then t\<lparr>t_done := 1, t_done_at := Some now\<rparr> else t) =
          t\<lparr>t_done := 1, t_done_at := Some now\<rparr>"
      using True by (rule if_P)
    then have "x = t\<lparr>t_done := 1, t_done_at := Some now\<rparr>" using x by (simp only:)
    then show ?thesis by simp
  next
    case False
    have "(if t_chat_id t = c \<and> t_id t = i \<and> t_done t = 0
           then t\<lparr>t_done := 1, t_done_at := Some now\<rparr> else t) = t"
      using False by (rule if_not_P)
    then have "x = t" using x by (simp only:)
    then show ?thesis using p by (simp only:)
  qed
qed

lemma mark_done_steps_cases:
  "mark_done_steps now c n db db_upd = (False, db_upd) \<or>
   (\<exists>i. mark_done_steps now c n db db_upd =
          (0 < fst (update_done now c i db_upd), snd (update_done now c i db_upd)))"
  by (simp add: mark_done_steps_def Let_def split_def split: option.split) blast

lemma inv_mark_done_steps:
  assumes "done_at_invariant db_upd"
  shows "done_at_invariant (snd (mark_done_steps now c n db db_upd))"
  using mark_done_steps_cases [of now c n db db_upd] assms inv_update_done [OF assms]
  by (elim disjE exE) (simp_all only: snd_conv)

lemma inv_mark_done:
  assumes "done_at_invariant db"
  shows "done_at_invariant (snd (mark_done_by_display_number now c n db))"
  unfolding mark_done_by_display_number_def by (rule inv_mark_done_steps [OF assms])

lemma on_text_store_cases:
  assumes "on_text L clock c m db = Inr (reply, db')"
  shows "db' = db \<or>
         (\<exists>n. db' = snd (mark_done_by_display_number (isoformat L (clock 0)) c n db)) \<or>
         (\<exists>s t. db' = snd (add_task (isoformat L (clock 0)) c s t db))"
  using assms
  by (auto simp: on_text_def Let_def split_def
      split: if_splits sum.splits option.splits)

lemma inv_on_text:
  assumes "done_at_invariant db" "on_text L clock c m db = Inr (reply, db')"
  shows "done_at_invariant db'"
  using on_text_store_cases [OF assms(2)] assms(1) inv_mark_done [OF assms(1)] inv_add_task [OF assms(1)]
  by (elim disjE exE) (simp_all only:)


text \<open>
  C9. \<open>done_at\<close> is non-null exactly when \<open>done\<close> is non-zero: this holds of the empty
  table and is kept by task insertion, by completion (also when the UPDATE meets a table
  changed since the SELECT) and by the whole handling of a message. Insertion appends one
  row with \<open>done = 0\<close> and \<open>done_at\<close> NULL; the UPDATE of a completion sets \<open>done = 1\<close>
  and \<open>done_at\<close> to the time of the call in the rows it changes, and changes nothing else.
\<close>

theorem done_at_invariant_preserved:
  "done_at_invariant \<lparr>rows = [], seq = 0\<rparr> \<and>
   (done_at_invariant db \<longrightarrow>
      done_at_invariant (snd (add_task now c s t db)) \<and>
      done_at_invariant (snd (mark_done_by_display_number now c n db)) \<and>
      done_at_invariant (snd (mark_done_steps now c n db0 db)) \<and>
      (on_text L clock c m db = Inr (reply, db') \<longrightarrow> done_at_invariant db')) \<and>
   rows (snd (add_task now c s t db)) =
     rows db @ [\<lparr>t_id = fst (add_task now c s t db), t_chat_id = c, t_section = s,
                 t_text = str_strip t, t_created_at = now, t_done = 0, t_done_at = None\<rparr>] \<and>
   rows (snd (update_done now c i db)) =
     map (\<lambda>t. if t_chat_id t = c \<and> t_id t = i \<and> t_done t = 0
              then t\<lparr>t_done := 1, t_done_at := Some now\<rparr> else t) (rows db) \<and>
   (mark_done_by_display_number now c n db = (False, db) \<or>
    (\<exists>j. mark_done_by_display_number now c n db =
          (0 < fst (update_done now c j db), snd (update_done now c j db))))"
proof -
  have e: "done_at_invariant \<lparr>rows = [], seq = 0\<rparr>"
    by (simp add: done_at_invariant_def)
  have p: "done_at_invariant db \<longrightarrow>
      done_at_invariant (snd (add_task now c s t db)) \<and>
      done_at_invariant (snd (mark_done_by_display_number now c n db)) \<and>
      done_at_invariant (snd (mark_done_steps now c n db0 db)) \<and>
      (on_text L clock c m db = Inr (reply, db') \<longrightarrow> done_at_invariant db')"
  proof (intro impI conjI)
    assume i: "done_at_invariant db"
    show "done_at_invariant (snd (add_task now c s t db))" by (rule inv_add_task [OF i])
    show "done_at_invariant (snd (mark_done_by_display_number now c n db))"
      by (rule inv_mark_done [OF i])
    show "done_at_invariant (snd (mark_done_steps now c n db0 db))"
      by (rule inv_mark_done_steps [OF i])
    assume "on_text L clock c m db = Inr (reply, db')"
    then show "done_at_invariant db'" by (rule inv_on_text [OF i])
  qed
  have m: "mark_done_by_display_number now c n db = (False, db) \<or>
    (\<exists>j. mark_done_by_display_number now c n db =
          (0 < fst (update_done now c j db), snd (update_done now c j db)))"
    unfolding mark_done_by_display_number_def by (rule mark_done_steps_cases)
  show ?thesis
    by (rule conjI [OF e conjI [OF p conjI [OF add_task_rows conjI [OF update_done_rows m]]]])
qed

theorem done_at_invariant_preserved_witness:
  "done_at_invariant ex_db \<and>
   done_at_invariant (snd (add_task (ex_ts ''3T08:00'') 7 (SECTION_ORDER ! 1) (cps ''water plants'') ex_db)) \<and>
   done_at_invariant (snd (mark_done_by_display_number (ex_ts ''3T08:00'') 7 2 ex_db)) \<and>
   on_text ex_lib ex_clock 7 (Some (cps ''nap'')) ex_db =
     Inr (added_reply (SECTION_ORDER ! 3), snd (add_task (ex_isoformat (ex_clock 0)) 7 (SECTION_ORDER ! 3) (cps ''nap'') ex_db)) \<and>
   done_at_invariant (snd (add_task (ex_isoformat (ex_clock 0)) 7 (SECTION_ORDER ! 3) (cps ''nap'') ex_db))"
proof -
  have i: "done_at_invariant ex_db"
    by (simp add: done_at_invariant_def ex_db_def ex_rows_def)
  have o: "on_text ex_lib ex_clock 7 (Some (cps ''nap'')) ex_db =
     Inr (added_reply (SECTION_ORDER ! 3), snd (add_task (ex_isoformat (ex_clock 0)) 7 (SECTION_ORDER ! 3) (cps ''nap'') ex_db))"
    by (simp add: on_text_def normalize_text_def is_list_command_def LIST_COMMANDS_def
        parse_done_command_def DONE_VERBS_def parse_section_from_text_def str_strip_def
        str_split_def isspace_def cps_def SECTION_PRIORITY_eq SECTION_ORDER_def split_def
        ex_lib_def)
  note P = done_at_invariant_preserved [of ex_db "ex_ts ''3T08:00''" 7 "SECTION_ORDER ! 1"
      "cps ''water plants''" 2 ex_db ex_lib ex_clock "Some (cps ''nap'')"
      "added_reply (SECTION_ORDER ! 3)"
      "snd (add_task (ex_isoformat (ex_clock 0)) 7 (SECTION_ORDER ! 3) (cps ''nap'') ex_db)",
      THEN conjunct2, THEN conjunct1, rule_format, OF i]
  show ?thesis
    using i P [THEN conjunct1] P [THEN conjunct2, THEN conjunct1] o
      P [THEN conjunct2, THEN conjunct2, THEN conjunct2, rule_format, OF o]
    by (intro conjI) assumption+
qed

section \<open>The midnight window: proofs\<close>

lemma day_divmod:
  fixes q r :: int
  assumes "0 \<le> r" "r < 86400000000"
  shows "(q * 86400000000 + r) div 86400000000 = q" "(q * 86400000000 + r) mod 86400000000 = r"
  using assms by (simp_all add: div_pos_pos_trivial mod_pos_pos_trivial)

lemma dt_add_day_start:
  assumes "1 \<le> q + 1" "q + 1 \<le> 3652059"
  shows "dt_add \<lparr>dt_ordinal = q, dt_hour = 0, dt_minute = 0, dt_second = 0, dt_microsecond = 0\<rparr>
           (timedelta 1 0) =
         Inr \<lparr>dt_ordinal = q + 1, dt_hour = 0, dt_minute = 0, dt_second = 0, dt_microsecond = 0\<rparr>"
proof -
  have t: "dt_to_us \<lparr>dt_ordinal = q, dt_hour = 0, dt_minute = 0, dt_second = 0, dt_microsecond = 0\<rparr>
             + timedelta 1 0 = (q + 1) * 86400000000 + 0"
    by (simp add: dt_to_us_def timedelta_def algebra_simps)
  show ?thesis
    unfolding dt_add_def t Let_def day_divmod [of 0 "q + 1", simplified]
    using assms by simp
qed

lemma dt_add_day_start_overflow:
  assumes "\<not> (1 \<le> q + 1 \<and> q + 1 \<le> 3652059)"
  shows "dt_add \<lparr>dt_ordinal = q, dt_hour = 0, dt_minute = 0, dt_second = 0, dt_microsecond = 0\<rparr>
           (timedelta 1 0) = Inl OverflowError"
proof -
  have t: "dt_to_us \<lparr>dt_ordinal = q, dt_hour = 0, dt_minute = 0, dt_second = 0, dt_microsecond = 0\<rparr>
             + timedelta 1 0 = (q + 1) * 86400000000 + 0"
    by (simp add: dt_to_us_def timedelta_def algebra_simps)
  show ?thesis
    unfolding dt_add_def t Let_def day_divmod [of 0 "q + 1", simplified]
    using assms by auto
qed

lemma dt_add_ordinal:
  assumes "dt_add d delta = Inr r"
  shows "dt_ordinal r = (dt_to_us d + delta) div 86400000000"
  using assms by (auto simp: dt_add_def Let_def split: if_splits)

lemma midnight_window_general:
  assumes "midnight_window now = Inr (day_start, day_end)"
  shows "day_start = \<lparr>dt_ordinal = (dt_to_us now - timedelta 0 1) div timedelta 1 0,
                      dt_hour = 0, dt_minute = 0, dt_second = 0, dt_microsecond = 0\<rparr>"
    and "day_end = \<lparr>dt_ordinal = dt_ordinal day_start + 1,
                    dt_hour = 0, dt_minute = 0, dt_second = 0, dt_microsecond = 0\<rparr>"
proof -
  obtain ref where ref: "dt_add now (- timedelta 0 1) = Inr ref"
    using assms by (auto simp: midnight_window_def split: sum.splits)
  let ?s = "ref\<lparr>dt_hour := 0, dt_minute := 0, dt_second := 0, dt_microsecond := 0\<rparr>"
  have se: "dt_add ?s (timedelta 1 0) = Inr day_end" and s: "day_start = ?s"
    using assms ref by (auto simp: midnight_window_def Let_def split: sum.splits)
  have o: "dt_ordinal ref = (dt_to_us now - timedelta 0 1) div timedelta 1 0"
    using dt_add_ordinal [OF ref] by (simp add: timedelta_def)
  have s': "?s = \<lparr>dt_ordinal = dt_ordinal ref, dt_hour = 0, dt_minute = 0, dt_second = 0,
                   dt_microsecond = 0\<rparr>"
    by simp
  show "day_start = \<lparr>dt_ordinal = (dt_to_us now - timedelta 0 1) div timedelta 1 0,
                      dt_hour = 0, dt_minute = 0, dt_second = 0, dt_microsecond = 0\<rparr>"
    using s s' o by simp
  have "1 \<le> dt_ordinal ref + 1 \<and> dt_ordinal ref + 1 \<le> 3652059"
    using se dt_add_day_start_overflow [of "dt_ordinal ref"] unfolding s' by fastforce
  then have "dt_add ?s (timedelta 1 0) =
      Inr \<lparr>dt_ordinal = dt_ordinal ref + 1, dt_hour = 0, dt_minute = 0, dt_second = 0,
            dt_microsecond = 0\<rparr>"
    unfolding s' using dt_add_day_start [of "dt_ordinal ref"] by simp
  then show "day_end = \<lparr>dt_ordinal = dt_ordinal day_start + 1,
                    dt_hour = 0, dt_minute = 0, dt_second = 0, dt_microsecond = 0\<rparr>"
    using se s by simp
qed

lemma midnight_window_bounds:
  assumes "midnight_window now = Inr (day_start, day_end)"
  shows "dt_diff day_end day_start = timedelta 1 0"
    and "dt_to_us day_start \<le> dt_to_us now - timedelta 0 1"
    and "dt_to_us now - timedelta 0 1 < dt_to_us day_end"
proof -
  let ?t = "dt_to_us now - timedelta 0 1"
  have s: "dt_to_us day_start = (?t div 86400000000) * 86400000000"
    unfolding midnight_window_general(1) [OF assms]
    by (simp add: dt_to_us_def timedelta_def)
  have e: "dt_to_us day_end = (?t div 86400000000 + 1) * 86400000000"
    unfolding midnight_window_general(2) [OF assms] midnight_window_general(1) [OF assms]
    by (simp add: dt_to_us_def timedelta_def)
  show "dt_diff day_end day_start = timedelta 1 0"
    unfolding dt_diff_def s e by (simp add: timedelta_def algebra_simps)
  have m: "0 \<le> ?t mod 86400000000" "?t mod 86400000000 < 86400000000" by simp_all
  have d: "?t = (?t div 86400000000) * 86400000000 + ?t mod 86400000000" by simp
  show "dt_to_us day_start \<le> ?t" unfolding s using m(1) d by linarith
  show "?t < dt_to_us day_end" unfolding e using m(2) d by (simp add: algebra_simps)
qed

lemma midnight_window_at_midnight:
  assumes "valid_datetime now" "1 < dt_ordinal now"
    and "dt_hour now = 0" "dt_minute now = 0" "dt_second now = 0"
  shows "midnight_window now =
           Inr (\<lparr>dt_ordinal = dt_ordinal now - 1, dt_hour = 0, dt_minute = 0, dt_second = 0,
                  dt_microsecond = 0\<rparr>,
                \<lparr>dt_ordinal = dt_ordinal now, dt_hour = 0, dt_minute = 0, dt_second = 0,
                  dt_microsecond = 0\<rparr>)"
proof -
  have us: "0 \<le> dt_microsecond now" "dt_microsecond now < 1000000"
    and ord: "dt_ordinal now \<le> 3652059"
    using assms(1) by (simp_all add: valid_datetime_def)
  have t: "dt_to_us now + - timedelta 0 1 =
             (dt_ordinal now - 1) * 86400000000 + (86399000000 + dt_microsecond now)"
    using assms(3-5) by (simp add: dt_to_us_def timedelta_def algebra_simps)
  have r: "0 \<le> 86399000000 + dt_microsecond now" "86399000000 + dt_microsecond now < 86400000000"
    using us by simp_all
  have "\<exists>h m s u. dt_add now (- timedelta 0 1) =
          Inr \<lparr>dt_ordinal = dt_ordinal now - 1, dt_hour = h, dt_minute = m, dt_second = s,
                dt_microsecond = u\<rparr>"
    unfolding dt_add_def t Let_def day_divmod [OF r]
    using assms(2) ord by simp
  then obtain h m s u where ref: "dt_add now (- timedelta 0 1) =
          Inr \<lparr>dt_ordinal = dt_ordinal now - 1, dt_hour = h, dt_minute = m, dt_second = s,
                dt_microsecond = u\<rparr>"
    by blast
  have e: "dt_add \<lparr>dt_ordinal = dt_ordinal now - 1, dt_hour = 0, dt_minute = 0, dt_second = 0,
                    dt_microsecond = 0\<rparr> (timedelta 1 0) =
           Inr \<lparr>dt_ordinal = dt_ordinal now, dt_hour = 0, dt_minute = 0, dt_second = 0,
                 dt_microsecond = 0\<rparr>"
    using dt_add_day_start [of "dt_ordinal now - 1"] assms(2) ord by simp
  show ?thesis
    unfolding midnight_window_def ref using e by simp
qed


text \<open>
  C4. Whenever the midnight job computes a window, its start is midnight of the day that
  holds the reference time \<open>now - 1 s\<close>, its end is the next midnight, 24 hours of wall
  clock later, and the reference time lies in the window. When the job fires at
  00:00:00 and any fraction of a second on a day after the first day of the calendar,
  the window is from midnight of the day before to midnight of that day, whatever the
  fraction is, and the summary that is sent is the digest of that window.
\<close>

theorem midnight_window_is_yesterday:
  "(midnight_window now = Inr (day_start, day_end) \<longrightarrow>
      day_start = \<lparr>dt_ordinal = (dt_to_us now - timedelta 0 1) div timedelta 1 0,
                    dt_hour = 0, dt_minute = 0, dt_second = 0, dt_microsecond = 0\<rparr> \<and>
      day_end = \<lparr>dt_ordinal = dt_ordinal day_start + 1,
                  dt_hour = 0, dt_minute = 0, dt_second = 0, dt_microsecond = 0\<rparr> \<and>
      dt_diff day_end day_start = timedelta 1 0 \<and>
      timedelta 1 0 = 24 * 3600 * 1000000 \<and>
      dt_to_us day_start \<le> dt_to_us now - timedelta 0 1 \<and>
      dt_to_us now - timedelta 0 1 < dt_to_us day_end) \<and>
   (valid_datetime now \<and> 1 < dt_ordinal now \<and>
    dt_hour now = 0 \<and> dt_minute now = 0 \<and> dt_second now = 0 \<longrightarrow>
      midnight_window now =
        Inr (\<lparr>dt_ordinal = dt_ordinal now - 1, dt_hour = 0, dt_minute = 0, dt_second = 0,
               dt_microsecond = 0\<rparr>,
             \<lparr>dt_ordinal = dt_ordinal now, dt_hour = 0, dt_minute = 0, dt_second = 0,
               dt_microsecond = 0\<rparr>) \<and>
      send_midnight_done_summary L now c db =
        Inr (format_done_summary_for_range L c
               \<lparr>dt_ordinal = dt_ordinal now - 1, dt_hour = 0, dt_minute = 0, dt_second = 0,
                 dt_microsecond = 0\<rparr>
               \<lparr>dt_ordinal = dt_ordinal now, dt_hour = 0, dt_minute = 0, dt_second = 0,
                 dt_microsecond = 0\<rparr> db))"
proof (intro conjI impI)
  assume w: "midnight_window now = Inr (day_start, day_end)"
  show "day_start = \<lparr>dt_ordinal = (dt_to_us now - timedelta 0 1) div timedelta 1 0,
                    dt_hour = 0, dt_minute = 0, dt_second = 0, dt_microsecond = 0\<rparr>"
    by (rule midnight_window_general(1) [OF w])
  show "day_end = \<lparr>dt_ordinal = dt_ordinal day_start + 1,
                  dt_hour = 0, dt_minute = 0, dt_second = 0, dt_microsecond = 0\<rparr>"
    by (rule midnight_window_general(2) [OF w])
  show "dt_diff day_end day_start = timedelta 1 0"
    by (rule midnight_window_bounds(1) [OF w])
  show "timedelta 1 0 = 24 * 3600 * 1000000"
    by (simp add: timedelta_def)
  show "dt_to_us day_start \<le> dt_to_us now - timedelta 0 1"
    by (rule midnight_window_bounds(2) [OF w])
  show "dt_to_us now - timedelta 0 1 < dt_to_us day_end"
    by (rule midnight_window_bounds(3) [OF w])
next
  assume a: "valid_datetime now \<and> 1 < dt_ordinal now \<and>
    dt_hour now = 0 \<and> dt_minute now = 0 \<and> dt_second now = 0"
  then have v: "valid_datetime now" and o: "1 < dt_ordinal now"
    and z: "dt_hour now = 0" "dt_minute now = 0" "dt_second now = 0"
    by simp_all
  show w: "midnight_window now =
        Inr (\<lparr>dt_ordinal = dt_ordinal now - 1, dt_hour = 0, dt_minute = 0, dt_second = 0,
               dt_microsecond = 0\<rparr>,
             \<lparr>dt_ordinal = dt_ordinal now, dt_hour = 0, dt_minute = 0, dt_second = 0,
               dt_microsecond = 0\<rparr>)"
    by (rule midnight_window_at_midnight [OF v o z])
  show "send_midnight_done_summary L now c db =
        Inr (format_done_summary_for_range L c
               \<lparr>dt_ordinal = dt_ordinal now - 1, dt_hour = 0, dt_minute = 0, dt_second = 0,
                 dt_microsecond = 0\<rparr>
               \<lparr>dt_ordinal = dt_ordinal now, dt_hour = 0, dt_minute = 0, dt_second = 0,
                 dt_microsecond = 0\<rparr> db)"
    unfolding send_midnight_done_summary_def w by simp
qed

theorem midnight_window_is_yesterday_witness:
  "valid_datetime ex_midnight \<and> 1 < dt_ordinal ex_midnight \<and>
   dt_hour ex_midnight = 0 \<and> dt_minute ex_midnight = 0 \<and> dt_second ex_midnight = 0 \<and>
   dt_microsecond ex_midnight = 250000 \<and>
   midnight_window ex_midnight =
     Inr (\<lparr>dt_ordinal = dt_ordinal ex_midnight - 1, dt_hour = 0, dt_minute = 0, dt_second = 0,
            dt_microsecond = 0\<rparr>,
          \<lparr>dt_ordinal = dt_ordinal ex_midnight, dt_hour = 0, dt_minute = 0, dt_second = 0,
            dt_microsecond = 0\<rparr>) \<and>
   dt_diff \<lparr>dt_ordinal = dt_ordinal ex_midnight, dt_hour = 0, dt_minute = 0, dt_second = 0,
            dt_microsecond = 0\<rparr>
           \<lparr>dt_ordinal = dt_ordinal ex_midnight - 1, dt_hour = 0, dt_minute = 0, dt_second = 0,
            dt_microsecond = 0\<rparr> = timedelta 1 0"
proof -
  have h: "valid_datetime ex_midnight \<and> 1 < dt_ordinal ex_midnight \<and>
    dt_hour ex_midnight = 0 \<and> dt_minute ex_midnight = 0 \<and> dt_second ex_midnight = 0"
    by (simp add: ex_midnight_def valid_datetime_def)
  have u: "dt_microsecond ex_midnight = 250000"
    by (simp add: ex_midnight_def)
  note W = midnight_window_is_yesterday [of ex_midnight _ _ ex_lib 7 ex_db, THEN conjunct2,
      rule_format, OF h, THEN conjunct1]
  note D = midnight_window_is_yesterday [of ex_midnight, THEN conjunct1, rule_format, OF W,
      THEN conjunct2, THEN conjunct2, THEN conjunct1]
  show ?thesis
    using h u W D by (intro conjI) (simp_all only:)
qed

section \<open>The completion command: proofs\<close>

lemma isdecimal_iff: "isdecimal c \<longleftrightarrow> (\<exists>z \<in> set DECIMAL_ZEROS. z \<le> c \<and> c < z + 10)"
proof -
  have "(find (\<lambda>z. z \<le> c \<and> c < z + 10) DECIMAL_ZEROS \<noteq> None) =
          (\<exists>z. z \<in> set DECIMAL_ZEROS \<and> z \<le> c \<and> c < z + 10)"
    unfolding find_None_iff by blast
  then show ?thesis
    by (auto simp: isdecimal_def decimal_value_def split: option.splits)
qed

lemma isspace_bounds:
  assumes "isspace c"
  shows "c < 0x30 \<or> (0x85 \<le> c \<and> c \<le> 0xA0) \<or> c = 0x1680 \<or> (0x2000 \<le> c \<and> c \<le> 0x3000)"
  using assms unfolding isspace_def by linarith

lemma decimal_not_space:
  assumes "isdecimal c"
  shows "\<not> isspace c"
proof
  assume "isspace c"
  then have b: "c < 0x30 \<or> (0x85 \<le> c \<and> c \<le> 0xA0) \<or> c = 0x1680 \<or> (0x2000 \<le> c \<and> c \<le> 0x3000)"
    by (rule isspace_bounds)
  obtain z where z: "z \<in> set DECIMAL_ZEROS" "z \<le> c" "c < z + 10"
    using assms unfolding isdecimal_iff by blast
  have "\<forall>z \<in> set DECIMAL_ZEROS.
          0x30 \<le> z \<and> \<not> (0x85 \<le> z + 9 \<and> z \<le> 0xA0) \<and> \<not> (z \<le> 0x1680 \<and> 0x1680 \<le> z + 9) \<and>
          \<not> (0x2000 \<le> z + 9 \<and> z \<le> 0x3000)"
    by (simp add: DECIMAL_ZEROS_def)
  then have "0x30 \<le> z \<and> \<not> (0x85 \<le> z + 9 \<and> z \<le> 0xA0) \<and> \<not> (z \<le> 0x1680 \<and> 0x1680 \<le> z + 9) \<and>
          \<not> (0x2000 \<le> z + 9 \<and> z \<le> 0x3000)"
    using z(1) by blast
  then show False using b z(2,3) by linarith
qed


lemma takeWhile_dropWhile_stop:
  assumes "list_all P xs" "ys = [] \<or> \<not> P (hd ys)"
  shows "takeWhile P (xs @ ys) = xs" "dropWhile P (xs @ ys) = ys"
proof -
  have a: "\<forall>x \<in> set xs. P x" using assms(1) by (simp add: list_all_iff)
  have t: "takeWhile P ys = []" and d: "dropWhile P ys = ys"
    using assms(2) by (cases ys; simp)+
  show "takeWhile P (xs @ ys) = xs" using a t by (simp add: takeWhile_append2)
  show "dropWhile P (xs @ ys) = ys" using a d by (simp add: dropWhile_append2)
qed

lemma list_all_takeWhile: "list_all P (takeWhile P xs)"
  by (induction xs) simp_all

lemma match_number_tail_iff:
  "match_number_tail rest = Some g \<longleftrightarrow>
     (\<exists>ws1 ws2. rest = ws1 @ g @ ws2 \<and> ws1 \<noteq> [] \<and> list_all isspace ws1 \<and>
        g \<noteq> [] \<and> list_all isdecimal g \<and> list_all isspace ws2)"
proof
  assume m: "match_number_tail rest = Some g"
  let ?ws1 = "takeWhile isspace rest"
  let ?r1 = "dropWhile isspace rest"
  let ?ws2 = "dropWhile isdecimal ?r1"
  have g: "g = takeWhile isdecimal ?r1" and n1: "?ws1 \<noteq> []" and n2: "g \<noteq> []"
    and e: "dropWhile isspace ?ws2 = []"
    using m by (auto simp: match_number_tail_def Let_def split: if_splits)
  have "rest = ?ws1 @ ?r1" by simp
  also have "?r1 = g @ ?ws2" unfolding g by simp
  finally have r: "rest = ?ws1 @ g @ ?ws2" .
  have s2: "list_all isspace ?ws2"
    using e unfolding dropWhile_eq_Nil_conv by (simp add: list_all_iff)
  have "list_all isdecimal g" unfolding g by (rule list_all_takeWhile)
  then show "\<exists>ws1 ws2. rest = ws1 @ g @ ws2 \<and> ws1 \<noteq> [] \<and> list_all isspace ws1 \<and>
        g \<noteq> [] \<and> list_all isdecimal g \<and> list_all isspace ws2"
    using r n1 n2 s2 list_all_takeWhile [of isspace rest] by blast
next
  assume "\<exists>ws1 ws2. rest = ws1 @ g @ ws2 \<and> ws1 \<noteq> [] \<and> list_all isspace ws1 \<and>
        g \<noteq> [] \<and> list_all isdecimal g \<and> list_all isspace ws2"
  then obtain ws1 ws2 where r: "rest = ws1 @ g @ ws2" and n1: "ws1 \<noteq> []"
    and s1: "list_all isspace ws1" and n2: "g \<noteq> []" and d: "list_all isdecimal g"
    and s2: "list_all isspace ws2"
    by blast
  have "isdecimal (hd g)" using n2 d by (cases g) simp_all
  then have h1: "g @ ws2 = [] \<or> \<not> isspace (hd (g @ ws2))"
    using n2 decimal_not_space by simp
  have h2: "ws2 = [] \<or> \<not> isdecimal (hd ws2)"
  proof (cases ws2)
    case Nil
    then show ?thesis by simp
  next
    case (Cons w ws)
    then have "isspace w" using s2 by simp
    then show ?thesis using Cons decimal_not_space by auto
  qed
  have t1: "takeWhile isspace rest = ws1" and d1: "dropWhile isspace rest = g @ ws2"
    unfolding r using takeWhile_dropWhile_stop [OF s1 h1] by simp_all
  have t2: "takeWhile isdecimal (g @ ws2) = g" and d2: "dropWhile isdecimal (g @ ws2) = ws2"
    using takeWhile_dropWhile_stop [OF d h2] by simp_all
  have d3: "dropWhile isspace ws2 = []"
    using s2 unfolding dropWhile_eq_Nil_conv by (simp add: list_all_iff)
  show "match_number_tail rest = Some g"
    unfolding match_number_tail_def Let_def t1 d1 t2 d2 d3 using n1 n2 by simp
qed

lemma done_verbs_no_prefix:
  "\<not> prefix (DONE_VERBS ! 0) (DONE_VERBS ! 1 @ rest)"
  by (simp add: DONE_VERBS_def)

lemma done_verbs_mem: "DONE_VERBS ! 0 \<in> set DONE_VERBS" "DONE_VERBS ! 1 \<in> set DONE_VERBS"
  by (simp_all add: DONE_VERBS_def)

lemma done_verbs_cases: "v \<in> set DONE_VERBS \<Longrightarrow> v = DONE_VERBS ! 0 \<or> v = DONE_VERBS ! 1"
  by (simp add: DONE_VERBS_def)

lemma match_verbs_unfold:
  "match_verbs DONE_VERBS text =
     (case (if prefix (DONE_VERBS ! 0) text
            then match_number_tail (drop (length (DONE_VERBS ! 0)) text) else None) of
        Some g \<Rightarrow> Some g
      | None \<Rightarrow>
          (if prefix (DONE_VERBS ! 1) text
           then match_number_tail (drop (length (DONE_VERBS ! 1)) text) else None))"
proof -
  have "DONE_VERBS = [DONE_VERBS ! 0, DONE_VERBS ! 1]" by (simp add: DONE_VERBS_def)
  then have "match_verbs DONE_VERBS text = match_verbs [DONE_VERBS ! 0, DONE_VERBS ! 1] text"
    by simp
  then show ?thesis by (simp split: option.split)
qed

lemma match_verbs_iff:
  "match_verbs DONE_VERBS text = Some g \<longleftrightarrow>
     (\<exists>v rest. v \<in> set DONE_VERBS \<and> text = v @ rest \<and> match_number_tail rest = Some g)"
proof
  assume "match_verbs DONE_VERBS text = Some g"
  then have "(prefix (DONE_VERBS ! 0) text \<and>
              match_number_tail (drop (length (DONE_VERBS ! 0)) text) = Some g) \<or>
             (prefix (DONE_VERBS ! 1) text \<and>
              match_number_tail (drop (length (DONE_VERBS ! 1)) text) = Some g)"
    unfolding match_verbs_unfold by (simp split: option.splits if_splits)
  then obtain v where v: "v \<in> set DONE_VERBS" "prefix v text"
    "match_number_tail (drop (length v) text) = Some g"
    using done_verbs_mem by blast
  have "text = v @ drop (length v) text" using v(2) by (auto simp: prefix_def)
  then show "\<exists>v rest. v \<in> set DONE_VERBS \<and> text = v @ rest \<and> match_number_tail rest = Some g"
    using v(1,3) by blast
next
  assume "\<exists>v rest. v \<in> set DONE_VERBS \<and> text = v @ rest \<and> match_number_tail rest = Some g"
  then obtain v rest where v: "v \<in> set DONE_VERBS" and t: "text = v @ rest"
    and m: "match_number_tail rest = Some g"
    by blast
  have "v = DONE_VERBS ! 0 \<or> v = DONE_VERBS ! 1" using v by (rule done_verbs_cases)
  then show "match_verbs DONE_VERBS text = Some g"
  proof
    assume "v = DONE_VERBS ! 0"
    then have "text = DONE_VERBS ! 0 @ rest" using t by simp
    then show ?thesis unfolding match_verbs_unfold using m by simp
  next
    assume "v = DONE_VERBS ! 1"
    then have t1: "text = DONE_VERBS ! 1 @ rest" using t by simp
    have "\<not> prefix (DONE_VERBS ! 0) text" unfolding t1 by (rule done_verbs_no_prefix)
    then show ?thesis unfolding match_verbs_unfold using m t1 by simp
  qed
qed

lemma py_int_digits:
  assumes "g \<noteq> []" "list_all isdecimal g"
  shows "\<exists>n. py_int g = Inr n \<and> 0 \<le> n"
proof -
  have "0 \<le> a \<Longrightarrow> 0 \<le> fold (\<lambda>c acc. 10 * acc + (case decimal_value c of None \<Rightarrow> 0 | Some v \<Rightarrow> int v)) g a"
    for a :: int
    by (induction g arbitrary: a) (auto split: option.splits)
  then show ?thesis using assms by (simp add: py_int_def)
qed

lemma py_int_Inr:
  assumes "py_int g = Inr n"
  shows "g \<noteq> [] \<and> list_all isdecimal g \<and> 0 \<le> n"
proof -
  have g: "g \<noteq> []" "list_all isdecimal g"
    using assms by (auto simp: py_int_def split: if_splits)
  then show ?thesis using py_int_digits [OF g] assms by auto
qed

lemma parse_done_command_iff:
  "parse_done_command text = Inr (Some n) \<longleftrightarrow>
     (\<exists>v ws1 ds ws2. v \<in> set DONE_VERBS \<and> text = v @ ws1 @ ds @ ws2 \<and>
        ws1 \<noteq> [] \<and> list_all isspace ws1 \<and> ds \<noteq> [] \<and> list_all isdecimal ds \<and>
        list_all isspace ws2 \<and> py_int ds = Inr n)"
proof
  assume p: "parse_done_command text = Inr (Some n)"
  then obtain g where g: "match_verbs DONE_VERBS text = Some g" and i: "py_int g = Inr n"
    by (auto simp: parse_done_command_def split: option.splits sum.splits)
  obtain v rest where v: "v \<in> set DONE_VERBS" "text = v @ rest" "match_number_tail rest = Some g"
    using g unfolding match_verbs_iff by blast
  obtain ws1 ws2 where w: "rest = ws1 @ g @ ws2" "ws1 \<noteq> []" "list_all isspace ws1"
    "g \<noteq> []" "list_all isdecimal g" "list_all isspace ws2"
    using v(3) unfolding match_number_tail_iff by blast
  show "\<exists>v ws1 ds ws2. v \<in> set DONE_VERBS \<and> text = v @ ws1 @ ds @ ws2 \<and>
        ws1 \<noteq> [] \<and> list_all isspace ws1 \<and> ds \<noteq> [] \<and> list_all isdecimal ds \<and>
        list_all isspace ws2 \<and> py_int ds = Inr n"
    using v(1,2) w i by blast
next
  assume "\<exists>v ws1 ds ws2. v \<in> set DONE_VERBS \<and> text = v @ ws1 @ ds @ ws2 \<and>
        ws1 \<noteq> [] \<and> list_all isspace ws1 \<and> ds \<noteq> [] \<and> list_all isdecimal ds \<and>
        list_all isspace ws2 \<and> py_int ds = Inr n"
  then obtain v ws1 ds ws2 where v: "v \<in> set DONE_VERBS" "text = v @ ws1 @ ds @ ws2"
    and w: "ws1 \<noteq> []" "list_all isspace ws1" "ds \<noteq> []" "list_all isdecimal ds"
      "list_all isspace ws2"
    and i: "py_int ds = Inr n"
    by blast
  have "match_number_tail (ws1 @ ds @ ws2) = Some ds"
    unfolding match_number_tail_iff using w by blast
  then have "match_verbs DONE_VERBS text = Some ds"
    unfolding match_verbs_iff using v by blast
  then show "parse_done_command text = Inr (Some n)"
    using i by (simp add: parse_done_command_def)
qed

lemma parse_done_command_no_error: "parse_done_command text \<noteq> Inl e"
proof (cases "match_verbs DONE_VERBS text")
  case None
  then show ?thesis by (simp add: parse_done_command_def)
next
  case (Some g)
  then obtain v rest where "match_number_tail rest = Some g"
    unfolding match_verbs_iff by blast
  then have "g \<noteq> []" "list_all isdecimal g"
    unfolding match_number_tail_iff by blast+
  then obtain n where "py_int g = Inr n" using py_int_digits by blast
  then show ?thesis using Some by (simp add: parse_done_command_def)
qed


lemma ex_chars:
  "isspace 0x20" "\<not> isspace 0x30" "\<not> isspace 0x32"
  "isdecimal 0x30" "isdecimal 0x32" "decimal_value 0x30 = Some 0" "decimal_value 0x32 = Some 2"
  by (simp_all add: isspace_def isdecimal_def decimal_value_def DECIMAL_ZEROS_def)

lemmas parse_done_eval = parse_done_command_def DONE_VERBS_def match_number_tail_def py_int_def
  ex_chars

text \<open>
  C6, as the claim states it, fails: the text of the first verb, a space and the digit
  zero is read as a completion command, and the number it yields, 0, is not positive.
  The handler then looks for the display number 0, finds none and leaves the table as
  it is.
\<close>

theorem parse_done_command_zero_counterexample:
  "parse_done_command [0x5E1, 0x5D9, 0x5D9, 0x5DD, 0x20, 0x30] = Inr (Some 0) \<and>
   \<not> (0 < (0::int)) \<and>
   on_text ex_lib ex_clock 7 (Some [0x5E1, 0x5D9, 0x5D9, 0x5DD, 0x20, 0x30]) ex_db =
     Inr (NOT_FOUND_REPLY, ex_db)"
proof -
  have p: "parse_done_command [0x5E1, 0x5D9, 0x5D9, 0x5DD, 0x20, 0x30] = Inr (Some 0)"
    by (simp add: parse_done_eval)
  have n: "normalize_text (Some [0x5E1, 0x5D9, 0x5D9, 0x5DD, 0x20, 0x30]) =
             [0x5E1, 0x5D9, 0x5D9, 0x5DD, 0x20, 0x30]"
    by (simp add: normalize_text_def str_strip_def isspace_def)
  have l: "\<not> is_list_command [0x5E1, 0x5D9, 0x5D9, 0x5DD, 0x20, 0x30]"
    by (simp add: is_list_command_def LIST_COMMANDS_def)
  have m: "mark_done_by_display_number (isoformat ex_lib (ex_clock 0)) 7 0 ex_db = (False, ex_db)"
    unfolding mark_done_by_display_number_def
    by (rule mark_done_steps_not_found) simp
  have "on_text ex_lib ex_clock 7 (Some [0x5E1, 0x5D9, 0x5D9, 0x5DD, 0x20, 0x30]) ex_db =
     Inr (NOT_FOUND_REPLY, ex_db)"
    unfolding on_text_def n Let_def using l p m by simp
  then show ?thesis using p by simp
qed

text \<open>
  C6, amended. A text is read as a completion command exactly when it is one of the two
  verbs, then one or more whitespace characters, then one or more decimal digits, then
  any whitespace; the number it yields is the value of the digits, a non-negative
  integer (zero included). \<open>parse_done_command\<close> raises on no text. The handler passes
  the number to \<open>mark_done_by_display_number\<close>, where it is a display number.
\<close>

theorem parse_done_command_pattern:
  "(parse_done_command text = Inr (Some n) \<longleftrightarrow>
      (\<exists>v ws1 ds ws2. v \<in> set DONE_VERBS \<and> text = v @ ws1 @ ds @ ws2 \<and>
         ws1 \<noteq> [] \<and> list_all isspace ws1 \<and> ds \<noteq> [] \<and> list_all isdecimal ds \<and>
         list_all isspace ws2 \<and> py_int ds = Inr n)) \<and>
   parse_done_command text \<noteq> Inl e \<and>
   (parse_done_command text = Inr (Some n) \<longrightarrow> 0 \<le> n) \<and>
   (\<not> is_list_command (normalize_text m) \<and>
    parse_done_command (normalize_text m) = Inr (Some k) \<longrightarrow>
      on_text L clock c m db =
        Inr (if fst (mark_done_by_display_number (isoformat L (clock 0)) c k db)
             then DONE_REPLY else NOT_FOUND_REPLY,
             snd (mark_done_by_display_number (isoformat L (clock 0)) c k db)))"
proof (intro conjI impI)
  show "parse_done_command text = Inr (Some n) \<longleftrightarrow>
      (\<exists>v ws1 ds ws2. v \<in> set DONE_VERBS \<and> text = v @ ws1 @ ds @ ws2 \<and>
         ws1 \<noteq> [] \<and> list_all isspace ws1 \<and> ds \<noteq> [] \<and> list_all isdecimal ds \<and>
         list_all isspace ws2 \<and> py_int ds = Inr n)"
    by (rule parse_done_command_iff)
  show "parse_done_command text \<noteq> Inl e"
    by (rule parse_done_command_no_error)
next
  assume "parse_done_command text = Inr (Some n)"
  then obtain ds where "py_int ds = Inr n"
    unfolding parse_done_command_iff by blast
  then show "0 \<le> n" using py_int_Inr by blast
next
  assume "\<not> is_list_command (normalize_text m) \<and>
    parse_done_command (normalize_text m) = Inr (Some k)"
  then show "on_text L clock c m db =
        Inr (if fst (mark_done_by_display_number (isoformat L (clock 0)) c k db)
             then DONE_REPLY else NOT_FOUND_REPLY,
             snd (mark_done_by_display_number (isoformat L (clock 0)) c k db))"
    by (simp add: on_text_def Let_def split_def)
qed

theorem parse_done_command_pattern_witness:
  "DONE_VERBS ! 1 \<in> set DONE_VERBS \<and> list_all isspace [0x20, 0x09] \<and>
   list_all isdecimal [0x31, 0x663] \<and> list_all isspace [0xA0] \<and>
   py_int [0x31, 0x663] = Inr 13 \<and>
   parse_done_command (DONE_VERBS ! 1 @ [0x20, 0x09] @ [0x31, 0x663] @ [0xA0]) = Inr (Some 13) \<and>
   (0::int) \<le> 13 \<and>
   \<not> is_list_command (normalize_text (Some [0x5E1, 0x5D9, 0x5D9, 0x5DD, 0x20, 0x20, 0x32])) \<and>
   parse_done_command (normalize_text (Some [0x5E1, 0x5D9, 0x5D9, 0x5DD, 0x20, 0x20, 0x32])) =
     Inr (Some 2) \<and>
   on_text ex_lib ex_clock 7 (Some [0x5E1, 0x5D9, 0x5D9, 0x5DD, 0x20, 0x20, 0x32]) ex_db =
     Inr (if fst (mark_done_by_display_number (isoformat ex_lib (ex_clock 0)) 7 2 ex_db)
          then DONE_REPLY else NOT_FOUND_REPLY,
          snd (mark_done_by_display_number (isoformat ex_lib (ex_clock 0)) 7 2 ex_db))"
proof -
  have v: "DONE_VERBS ! 1 \<in> set DONE_VERBS" by (rule done_verbs_mem)
  have s1: "list_all isspace [0x20, 0x09]" by (simp add: isspace_def)
  have dv: "decimal_value 0x31 = Some 1" "decimal_value 0x663 = Some 3"
    by (simp_all add: decimal_value_def DECIMAL_ZEROS_def)
  have d: "list_all isdecimal [0x31, 0x663]"
    by (simp add: isdecimal_def dv)
  have s2: "list_all isspace [0xA0]" by (simp add: isspace_def)
  have i: "py_int [0x31, 0x663] = Inr 13"
    using d by (simp add: py_int_def dv)
  have ex: "\<exists>v ws1 ds ws2. v \<in> set DONE_VERBS \<and>
      DONE_VERBS ! 1 @ [0x20, 0x09] @ [0x31, 0x663] @ [0xA0] = v @ ws1 @ ds @ ws2 \<and>
      ws1 \<noteq> [] \<and> list_all isspace ws1 \<and> ds \<noteq> [] \<and> list_all isdecimal ds \<and>
      list_all isspace ws2 \<and> py_int ds = Inr 13"
    using v s1 d s2 i by blast
  note P = parse_done_command_pattern [of "DONE_VERBS ! 1 @ [0x20, 0x09] @ [0x31, 0x663] @ [0xA0]" 13,
      THEN conjunct1, THEN iffD2, OF ex]
  note N = parse_done_command_pattern [of "DONE_VERBS ! 1 @ [0x20, 0x09] @ [0x31, 0x663] @ [0xA0]" 13,
      THEN conjunct2, THEN conjunct2, THEN conjunct1, rule_format, OF P]
  have n: "normalize_text (Some [0x5E1, 0x5D9, 0x5D9, 0x5DD, 0x20, 0x20, 0x32]) =
             [0x5E1, 0x5D9, 0x5D9, 0x5DD, 0x20, 0x32]"
    by (simp add: normalize_text_def str_strip_def isspace_def)
  have l: "\<not> is_list_command (normalize_text (Some [0x5E1, 0x5D9, 0x5D9, 0x5DD, 0x20, 0x20, 0x32]))"
    unfolding n by (simp add: is_list_command_def LIST_COMMANDS_def)
  have p: "parse_done_command (normalize_text (Some [0x5E1, 0x5D9, 0x5D9, 0x5DD, 0x20, 0x20, 0x32])) =
     Inr (Some 2)"
    unfolding n by (simp add: parse_done_eval)
  note O = parse_done_command_pattern [of _ _ _ "Some [0x5E1, 0x5D9, 0x5D9, 0x5DD, 0x20, 0x20, 0x32]"
      2 ex_lib ex_clock 7 ex_db,
      THEN conjunct2, THEN conjunct2, THEN conjunct2, rule_format, OF conjI, OF l p]
  show ?thesis
    using v s1 d s2 i P N l p O by (intro conjI) assumption+
qed

section \<open>Splitting into words: proofs\<close>

lemma split_acc_words:
  assumes "\<forall>c \<in> set cur. \<not> isspace c"
  shows "\<forall>w \<in> set (str_split_acc cur s). w \<noteq> [] \<and> (\<forall>c \<in> set w. \<not> isspace c)"
  using assms
proof (induction s arbitrary: cur)
  case Nil
  then show ?case by simp
next
  case (Cons a s)
  have e: "\<forall>w \<in> set (str_split_acc [] s). w \<noteq> [] \<and> (\<forall>c \<in> set w. \<not> isspace c)"
    by (rule Cons.IH) simp
  show ?case
  proof (cases "isspace a")
    case True
    then show ?thesis using e Cons.prems by simp
  next
    case False
    then have "\<forall>c \<in> set (cur @ [a]). \<not> isspace c" using Cons.prems by simp
    then have "\<forall>w \<in> set (str_split_acc (cur @ [a]) s). w \<noteq> [] \<and> (\<forall>c \<in> set w. \<not> isspace c)"
      by (rule Cons.IH)
    then show ?thesis using False by simp
  qed
qed

lemma split_words: "\<forall>w \<in> set (str_split s). w \<noteq> [] \<and> (\<forall>c \<in> set w. \<not> isspace c)"
  unfolding str_split_def by (rule split_acc_words) simp

lemma split_acc_spaces:
  assumes "list_all isspace ws"
  shows "str_split_acc cur ws = (if cur = [] then [] else [cur])"
  using assms by (induction ws arbitrary: cur) auto

lemma split_acc_leading:
  assumes "list_all isspace ws"
  shows "str_split_acc [] (ws @ s) = str_split_acc [] s"
  using assms by (induction ws) auto

lemma split_acc_trailing:
  assumes "list_all isspace ws"
  shows "str_split_acc cur (s @ ws) = str_split_acc cur s"
proof (induction s arbitrary: cur)
  case Nil
  show ?case using split_acc_spaces [OF assms] by simp
next
  case (Cons c cs)
  then show ?case by simp
qed

lemma split_acc_Nil_iff: "str_split_acc cur s = [] \<longleftrightarrow> cur = [] \<and> list_all isspace s"
  by (induction s arbitrary: cur) auto

lemma strip_decomp:
  "\<exists>a b. s = a @ str_strip s @ b \<and> list_all isspace a \<and> list_all isspace b"
proof -
  let ?d = "dropWhile isspace s"
  have 1: "s = takeWhile isspace s @ ?d" by simp
  have "rev (takeWhile isspace (rev ?d) @ dropWhile isspace (rev ?d)) = rev (rev ?d)"
    by (simp only: takeWhile_dropWhile_id)
  then have "rev (dropWhile isspace (rev ?d)) @ rev (takeWhile isspace (rev ?d)) = ?d"
    by (simp only: rev_append rev_rev_ident)
  then have 2: "?d = str_strip s @ rev (takeWhile isspace (rev ?d))"
    by (simp only: str_strip_def)
  have a: "list_all isspace (takeWhile isspace s)"
    by (induction s) simp_all
  have "\<forall>x \<in> set (takeWhile isspace (rev ?d)). isspace x"
    by (auto dest: set_takeWhileD)
  then have b: "list_all isspace (rev (takeWhile isspace (rev ?d)))"
    by (simp add: list_all_iff)
  have "s = takeWhile isspace s @ str_strip s @ rev (takeWhile isspace (rev ?d))"
    using 1 2 by metis
  then show ?thesis using a b by blast
qed

lemma split_strip: "str_split (str_strip s) = str_split s"
proof -
  obtain a b where s: "s = a @ str_strip s @ b" and a: "list_all isspace a"
    and b: "list_all isspace b"
    using strip_decomp by blast
  have "str_split s = str_split_acc [] (a @ (str_strip s @ b))"
    using s by (simp add: str_split_def)
  also have "\<dots> = str_split_acc [] (str_strip s @ b)" by (rule split_acc_leading [OF a])
  also have "\<dots> = str_split_acc [] (str_strip s)" by (rule split_acc_trailing [OF b])
  finally show ?thesis by (simp add: str_split_def)
qed

lemma strip_Nil_iff: "str_strip s = [] \<longleftrightarrow> list_all isspace s"
proof -
  have "str_strip s = [] \<longleftrightarrow> (\<forall>x \<in> set (dropWhile isspace s). isspace x)"
    by (simp only: str_strip_def rev_is_Nil_conv dropWhile_eq_Nil_conv set_rev)
  also have "\<dots> \<longleftrightarrow> dropWhile isspace (dropWhile isspace s) = []"
    by (simp only: dropWhile_eq_Nil_conv)
  also have "\<dots> \<longleftrightarrow> dropWhile isspace s = []"
    by (simp only: dropWhile_idem)
  also have "\<dots> \<longleftrightarrow> list_all isspace s"
    by (simp only: dropWhile_eq_Nil_conv list_all_iff)
  finally show ?thesis .
qed

lemma split_Nil_iff: "str_split s = [] \<longleftrightarrow> str_strip s = []"
  by (simp add: str_split_def split_acc_Nil_iff strip_Nil_iff)

lemma strip_id:
  assumes "s = [] \<or> (\<not> isspace (hd s) \<and> \<not> isspace (last s))"
  shows "str_strip s = s"
proof (cases s)
  case Nil
  then show ?thesis by (simp add: str_strip_def)
next
  case (Cons c cs)
  then have h: "\<not> isspace (hd s)" and l: "\<not> isspace (last s)" using assms by auto
  have 1: "dropWhile isspace s = s" using h Cons by simp
  obtain x xs where r: "rev s = x # xs" using Cons by (cases "rev s") simp_all
  have "hd (rev s) = last s" using Cons by (simp add: hd_rev)
  then have "\<not> isspace x" using l r by simp
  then have 2: "dropWhile isspace (rev s) = rev s" unfolding r by simp
  show ?thesis by (simp add: str_strip_def 1 2)
qed

lemma strip_ends:
  assumes "str_strip s \<noteq> []"
  shows "\<not> isspace (hd (str_strip s))" "\<not> isspace (last (str_strip s))"
proof -
  let ?d = "dropWhile isspace s"
  let ?e = "dropWhile isspace (rev ?d)"
  have e: "?e \<noteq> []" using assms by (simp add: str_strip_def)
  then have "\<not> isspace (hd ?e)" by (rule hd_dropWhile)
  moreover have "last (str_strip s) = hd ?e" using e by (simp add: str_strip_def last_rev)
  ultimately show "\<not> isspace (last (str_strip s))" by simp
  have d: "?d \<noteq> []"
  proof
    assume "?d = []"
    then have "?e = []" by (simp only: rev.simps dropWhile.simps)
    then show False using e by (simp only:)
  qed
  then have hd: "\<not> isspace (hd ?d)" by (rule hd_dropWhile)
  have "rev (takeWhile isspace (rev ?d) @ ?e) = rev (rev ?d)"
    by (simp only: takeWhile_dropWhile_id)
  then have "rev ?e @ rev (takeWhile isspace (rev ?d)) = ?d"
    by (simp only: rev_append rev_rev_ident)
  then have "?d = str_strip s @ rev (takeWhile isspace (rev ?d))" by (simp only: str_strip_def)
  then have "hd ?d = hd (str_strip s)" using assms by (metis hd_append2)
  then show "\<not> isspace (hd (str_strip s))" using hd by simp
qed

lemma strip_strip: "str_strip (str_strip s) = str_strip s"
proof (cases "str_strip s = []")
  case True
  have "str_strip [] = []" by (simp add: str_strip_def)
  then show ?thesis unfolding True .
next
  case False
  then show ?thesis using strip_ends [OF False] by (intro strip_id) simp
qed

lemma strip_word:
  assumes "\<forall>c \<in> set w. \<not> isspace c"
  shows "str_strip w = w"
proof (cases w)
  case Nil
  then show ?thesis by (simp add: str_strip_def)
next
  case (Cons c cs)
  then have "hd w \<in> set w" "last w \<in> set w" by simp_all
  then show ?thesis using assms by (intro strip_id) blast
qed

lemma join_ends:
  assumes "\<forall>w \<in> set ws. w \<noteq> []" "ws \<noteq> []"
  shows "str_join sep ws \<noteq> [] \<and> hd (str_join sep ws) = hd (hd ws) \<and>
         last (str_join sep ws) = last (last ws)"
  using assms
proof (induction sep ws rule: str_join.induct)
  case (1 sep)
  then show ?case by simp
next
  case (2 sep w)
  then show ?case by simp
next
  case (3 sep w v ws)
  then have "str_join sep (v # ws) \<noteq> []" "last (str_join sep (v # ws)) = last (last (v # ws))"
    by simp_all
  moreover have "w \<noteq> []" using 3(2) by simp
  ultimately show ?case by simp
qed

lemma strip_join:
  assumes "\<forall>w \<in> set ws. w \<noteq> [] \<and> (\<forall>c \<in> set w. \<not> isspace c)"
  shows "str_strip (str_join sep ws) = str_join sep ws"
    and "str_join sep ws = [] \<longleftrightarrow> ws = []"
proof -
  have ne: "\<forall>w \<in> set ws. w \<noteq> []" using assms by blast
  show j: "str_join sep ws = [] \<longleftrightarrow> ws = []"
    using join_ends [OF ne, of sep] by (cases ws) auto
  show "str_strip (str_join sep ws) = str_join sep ws"
  proof (cases ws)
    case Nil
    then show ?thesis by (simp add: str_strip_def)
  next
    case (Cons v vs)
    then have n: "ws \<noteq> []" by simp
    have m: "hd ws \<in> set ws" "last ws \<in> set ws" using n by simp_all
    have "hd (hd ws) \<in> set (hd ws)" "last (last ws) \<in> set (last ws)"
      using m ne by simp_all
    then have "\<not> isspace (hd (hd ws))" "\<not> isspace (last (last ws))"
      using assms m by blast+
    then show ?thesis using join_ends [OF ne n, of sep] by (intro strip_id) simp
  qed
qed

lemma join_butlast:
  assumes "butlast ws \<noteq> []"
  shows "str_join sep ws = str_join sep (butlast ws) @ sep @ last ws"
  using assms
proof (induction sep ws rule: str_join.induct)
  case (1 sep)
  then show ?case by simp
next
  case (2 sep w)
  then show ?case by simp
next
  case (3 sep w v ws)
  show ?case
  proof (cases ws)
    case Nil
    then show ?thesis by simp
  next
    case (Cons u us)
    then have "butlast (v # ws) \<noteq> []" by simp
    then have "str_join sep (v # ws) = str_join sep (butlast (v # ws)) @ sep @ last (v # ws)"
      by (rule 3)
    then show ?thesis using Cons by simp
  qed
qed

lemma split_acc_word:
  assumes "\<forall>c \<in> set w. \<not> isspace c"
  shows "str_split_acc cur (w @ r) = str_split_acc (cur @ w) r"
  using assms by (induction w arbitrary: cur) simp_all

lemma split_join:
  assumes "\<forall>w \<in> set ws. w \<noteq> [] \<and> (\<forall>c \<in> set w. \<not> isspace c)"
  shows "str_split (str_join [0x20] ws) = ws"
  using assms
proof (induction "[0x20::nat]" ws rule: str_join.induct)
  case 1
  then show ?case by (simp add: str_split_def)
next
  case (2 w)
  then have "str_split_acc [] (w @ []) = str_split_acc ([] @ w) []"
    by (intro split_acc_word) simp
  then show ?case using 2 by (simp add: str_split_def)
next
  case (3 w v ws)
  have w: "w \<noteq> []" "\<forall>c \<in> set w. \<not> isspace c" using 3(2) by simp_all
  have sp: "isspace 0x20" by (simp add: isspace_def)
  have "str_split_acc [] (w @ 0x20 # str_join [0x20] (v # ws)) =
          str_split_acc ([] @ w) (0x20 # str_join [0x20] (v # ws))"
    by (rule split_acc_word [OF w(2)])
  also have "\<dots> = w # str_split_acc [] (str_join [0x20] (v # ws))"
    using w(1) sp by simp
  also have "\<dots> = w # v # ws" using 3 by (simp add: str_split_def)
  finally show ?case by (simp add: str_split_def)
qed

lemma sub_ws_flag:
  assumes "s = [] \<or> \<not> isspace (hd s)"
  shows "sub_ws True s = sub_ws False s"
  using assms by (cases s) auto

lemma join_split_acc:
  assumes "s = [] \<or> \<not> isspace (last s)"
  shows "str_join [0x20] (str_split_acc cur s) =
           (if cur = [] then sub_ws True s else cur @ sub_ws False s)"
  using assms
proof (induction s arbitrary: cur)
  case Nil
  then show ?case by simp
next
  case (Cons c cs)
  have tl: "cs = [] \<or> \<not> isspace (last cs)" using Cons.prems by (cases cs) auto
  show ?case
  proof (cases "isspace c")
    case False
    have "str_join [0x20] (str_split_acc (cur @ [c]) cs) = (cur @ [c]) @ sub_ws False cs"
      using Cons.IH [OF tl, of "cur @ [c]"] by simp
    then show ?thesis using False by simp
  next
    case True
    then have cs: "cs \<noteq> []" using Cons.prems by auto
    then have "\<not> list_all isspace cs" using tl by (auto simp: list_all_iff)
    then have ne: "str_split_acc [] cs \<noteq> []" by (simp add: split_acc_Nil_iff)
    have ih: "str_join [0x20] (str_split_acc [] cs) = sub_ws True cs"
      using Cons.IH [OF tl, of "[]"] by simp
    show ?thesis
    proof (cases "cur = []")
      case True
      then show ?thesis using \<open>isspace c\<close> ih by simp
    next
      case False
      obtain x xs where x: "str_split_acc [] cs = x # xs" using ne by (cases "str_split_acc [] cs") auto
      have "str_join [0x20] (cur # str_split_acc [] cs) = cur @ [0x20] @ str_join [0x20] (str_split_acc [] cs)"
        unfolding x by simp
      then show ?thesis using False \<open>isspace c\<close> ih by simp
    qed
  qed
qed

lemma normalize_text_join:
  "normalize_text (Some s) = str_join [0x20] (str_split s)"
proof -
  let ?t = "str_strip s"
  have n: "normalize_text (Some s) = sub_ws False ?t"
    by (simp add: normalize_text_def str_strip_def)
  have h: "?t = [] \<or> \<not> isspace (hd ?t)" and l: "?t = [] \<or> \<not> isspace (last ?t)"
    using strip_ends [of s] by blast+
  have "str_join [0x20] (str_split ?t) = sub_ws True ?t"
    unfolding str_split_def using join_split_acc [OF l, of "[]"] by simp
  also have "\<dots> = sub_ws False ?t" by (rule sub_ws_flag [OF h])
  finally show ?thesis unfolding n split_strip by simp
qed

lemma normalize_text_None: "normalize_text None = []"
  by (simp add: normalize_text_def str_strip_def)

lemma normalize_text_fixed:
  assumes "text = normalize_text m"
  shows "str_strip text = text" "text = str_join [0x20] (str_split text)"
proof -
  obtain ws where t: "text = str_join [0x20] ws"
    and ws: "\<forall>w \<in> set ws. w \<noteq> [] \<and> (\<forall>c \<in> set w. \<not> isspace c)"
  proof (cases m)
    case None
    then have "text = str_join [0x20] []" using assms by (simp add: normalize_text_None)
    then show ?thesis using that [of "[]"] by simp
  next
    case (Some s)
    then have "text = str_join [0x20] (str_split s)" using assms by (simp add: normalize_text_join)
    then show ?thesis using that split_words by blast
  qed
  show "str_strip text = text" unfolding t by (rule strip_join(1) [OF ws])
  show "text = str_join [0x20] (str_split text)" unfolding t split_join [OF ws] by simp
qed


lemma casefold_hebrew_id:
  assumes "\<forall>c. 0x5D0 \<le> c \<and> c \<le> 0x5EA \<longrightarrow> cf c = [c]"
    and "\<forall>c \<in> set k. 0x5D0 \<le> c \<and> c \<le> 0x5EA"
  shows "casefold_text cf k = k"
  using assms(2) unfolding casefold_text_def
proof (induction k)
  case Nil
  then show ?case by simp
next
  case (Cons a k)
  then have "cf a = [a]" using assms(1) by simp
  then show ?case using Cons by simp
qed

lemma casefold_hebrew_inj:
  assumes h1: "\<forall>c. 0x5D0 \<le> c \<and> c \<le> 0x5EA \<longrightarrow> cf c = [c]"
    and h2: "\<forall>c. \<not> (0x5D0 \<le> c \<and> c \<le> 0x5EA) \<longrightarrow>
               cf c \<noteq> [] \<and> (\<forall>d \<in> set (cf c). \<not> (0x5D0 \<le> d \<and> d \<le> 0x5EA))"
    and k: "\<forall>c \<in> set k. 0x5D0 \<le> c \<and> c \<le> 0x5EA"
    and e: "casefold_text cf w = k"
  shows "w = k"
  using k e
proof (induction w arbitrary: k)
  case Nil
  then show ?case by (simp add: casefold_text_def)
next
  case (Cons a w)
  have c: "cf a @ casefold_text cf w = k"
    using Cons.prems(2) by (simp add: casefold_text_def)
  show ?case
  proof (cases "0x5D0 \<le> a \<and> a \<le> 0x5EA")
    case True
    then have "cf a = [a]" using h1 by blast
    then have k': "k = a # casefold_text cf w" using c by simp
    then have "\<forall>c \<in> set (casefold_text cf w). 0x5D0 \<le> c \<and> c \<le> 0x5EA"
      using Cons.prems(1) by simp
    then have "w = casefold_text cf w" by (rule Cons.IH) simp
    then show ?thesis using k' by simp
  next
    case False
    then have n: "cf a \<noteq> []" and d: "\<forall>d \<in> set (cf a). \<not> (0x5D0 \<le> d \<and> d \<le> 0x5EA)"
      using h2 by blast+
    have "hd (cf a) \<in> set (cf a)" using n by simp
    moreover have "hd (cf a) \<in> set k" using n c by (metis hd_append2 hd_in_set append_is_Nil_conv)
    ultimately show ?thesis using d Cons.prems(1) by blast
  qed
qed

lemma section_keywords_hebrew:
  "\<forall>k \<in> set SECTION_ORDER. \<forall>c \<in> set k. 0x5D0 \<le> c \<and> c \<le> 0x5EA"
  by (simp add: SECTION_ORDER_def)

lemma matches_ignoring_case_exact:
  assumes h1: "\<forall>c. 0x5D0 \<le> c \<and> c \<le> 0x5EA \<longrightarrow> cf c = [c]"
    and h2: "\<forall>c. \<not> (0x5D0 \<le> c \<and> c \<le> 0x5EA) \<longrightarrow>
               cf c \<noteq> [] \<and> (\<forall>d \<in> set (cf c). \<not> (0x5D0 \<le> d \<and> d \<le> 0x5EA))"
  shows "(\<exists>k \<in> set SECTION_ORDER. matches_ignoring_case cf w k) \<longleftrightarrow> w \<in> set SECTION_ORDER"
proof
  assume "\<exists>k \<in> set SECTION_ORDER. matches_ignoring_case cf w k"
  then obtain k where k: "k \<in> set SECTION_ORDER" and m: "casefold_text cf w = casefold_text cf k"
    by (auto simp: matches_ignoring_case_def)
  have hk: "\<forall>c \<in> set k. 0x5D0 \<le> c \<and> c \<le> 0x5EA" using section_keywords_hebrew k by blast
  have "casefold_text cf w = k" using m casefold_hebrew_id [OF h1 hk] by simp
  then have "w = k" by (rule casefold_hebrew_inj [OF h1 h2 hk])
  then show "w \<in> set SECTION_ORDER" using k by simp
next
  assume "w \<in> set SECTION_ORDER"
  then show "\<exists>k \<in> set SECTION_ORDER. matches_ignoring_case cf w k"
    by (auto simp: matches_ignoring_case_def)
qed

lemma general_section: "SECTION_ORDER ! 3 = [0x5DB, 0x5DC, 0x5DC, 0x5D9]"
  by (simp add: SECTION_ORDER_def)

lemma parse_section_eq:
  "parse_section_from_text raw =
     Inr (if str_split raw = [] then (SECTION_ORDER ! 3, [])
          else if last (str_split raw) \<in> set SECTION_ORDER
               then (last (str_split raw), str_join [0x20] (butlast (str_split raw)))
               else (SECTION_ORDER ! 3, str_strip raw))"
proof (cases "str_strip raw = []")
  case True
  then have "str_split raw = []" by (simp add: split_Nil_iff)
  then show ?thesis using True by (simp add: parse_section_from_text_def general_section)
next
  case False
  let ?ws = "str_split raw"
  have ne: "?ws \<noteq> []" using False by (simp add: split_Nil_iff)
  have sp: "str_split (str_strip raw) = ?ws" by (rule split_strip)
  have "last ?ws \<in> set ?ws" using ne by simp
  then have "\<forall>c \<in> set (last ?ws). \<not> isspace c" using split_words [of raw] by blast
  then have lw: "str_strip (last ?ws) = last ?ws" by (rule strip_word)
  have "\<forall>w \<in> set (butlast ?ws). w \<noteq> [] \<and> (\<forall>c \<in> set w. \<not> isspace c)"
    using split_words [of raw] by (meson in_set_butlastD)
  then have bj: "str_strip (str_join [0x20] (butlast ?ws)) = str_join [0x20] (butlast ?ws)"
    by (rule strip_join(1))
  have pr: "(SECTION_PRIORITY (last ?ws) \<noteq> None) = (last ?ws \<in> set SECTION_ORDER)"
    by (simp add: SECTION_PRIORITY_None)
  have "parse_section_from_text raw =
          (if SECTION_PRIORITY (last ?ws) \<noteq> None
           then Inr (last ?ws, str_join [0x20] (butlast ?ws))
           else Inr ([0x5DB, 0x5DC, 0x5DC, 0x5D9], str_strip raw))"
    unfolding parse_section_from_text_def Let_def sp lw bj using False ne by simp
  then show ?thesis unfolding pr general_section using ne by simp
qed

lemma body_empty_iff:
  assumes "str_split raw \<noteq> []"
  shows "str_join [0x20] (butlast (str_split raw)) = [] \<longleftrightarrow> length (str_split raw) = 1"
proof -
  have "\<forall>w \<in> set (butlast (str_split raw)). w \<noteq> [] \<and> (\<forall>c \<in> set w. \<not> isspace c)"
    using split_words [of raw] by (meson in_set_butlastD)
  then have "str_join [0x20] (butlast (str_split raw)) = [] \<longleftrightarrow> butlast (str_split raw) = []"
    by (rule strip_join(2))
  also have "\<dots> \<longleftrightarrow> length (butlast (str_split raw)) = 0" by (simp only: length_0_conv)
  also have "\<dots> \<longleftrightarrow> length (str_split raw) = 1"
    using assms by (cases "str_split raw") (simp_all add: length_butlast)
  finally show ?thesis .
qed

lemma on_text_new_task:
  assumes "\<not> is_list_command (normalize_text m)"
    and "parse_done_command (normalize_text m) = Inr None"
    and "parse_section_from_text (normalize_text m) = Inr (section, body)"
  shows "on_text L clock c m db =
           (if body = [] then Inr (USAGE_REPLY, db)
            else Inr (added_reply section,
                      snd (add_task (isoformat L (clock 0)) c section body db)))"
  using assms by (simp add: on_text_def Let_def split_def)


text \<open>
  C5. \<open>parse_section_from_text\<close> never raises. With the words of the text (the maximal
  runs of non-whitespace, of which a text joined by single spaces is made): no word
  gives the section General and an empty body; a last word that is one of the four
  section keywords gives that section and, as body, the words before it joined by single
  spaces, which is empty exactly when the keyword is the only word; any other last word
  gives General and the trimmed text. A normalized text is trimmed and is its words
  joined by single spaces, so the body is the text without its last word. Matching the
  keywords exactly is matching them case-insensitively, for every case folding that
  leaves the Hebrew letters alone and produces none. A message that is neither a list
  request nor a completion command yields, on an empty body, the usage reply and the
  table unchanged, and otherwise one new task of that section and body.
\<close>

theorem parse_section_from_text_tokens:
  "parse_section_from_text raw =
     Inr (if str_split raw = [] then (SECTION_ORDER ! 3, [])
          else if last (str_split raw) \<in> set SECTION_ORDER
               then (last (str_split raw), str_join [0x20] (butlast (str_split raw)))
               else (SECTION_ORDER ! 3, str_strip raw)) \<and>
   (\<forall>w \<in> set (str_split raw). w \<noteq> [] \<and> (\<forall>c \<in> set w. \<not> isspace c)) \<and>
   ((\<forall>w \<in> set ws. w \<noteq> [] \<and> (\<forall>c \<in> set w. \<not> isspace c)) \<longrightarrow>
      str_split (str_join [0x20] ws) = ws) \<and>
   (str_split raw \<noteq> [] \<longrightarrow>
      (str_join [0x20] (butlast (str_split raw)) = [] \<longleftrightarrow> length (str_split raw) = 1)) \<and>
   (text = normalize_text m \<longrightarrow>
      str_strip text = text \<and> text = str_join [0x20] (str_split text) \<and>
      (1 < length (str_split text) \<longrightarrow>
         text = str_join [0x20] (butlast (str_split text)) @ [0x20] @ last (str_split text))) \<and>
   ((\<forall>c. 0x5D0 \<le> c \<and> c \<le> 0x5EA \<longrightarrow> cf c = [c]) \<and>
    (\<forall>c. \<not> (0x5D0 \<le> c \<and> c \<le> 0x5EA) \<longrightarrow>
           cf c \<noteq> [] \<and> (\<forall>d \<in> set (cf c). \<not> (0x5D0 \<le> d \<and> d \<le> 0x5EA))) \<longrightarrow>
      ((\<exists>k \<in> set SECTION_ORDER. matches_ignoring_case cf word k) \<longleftrightarrow>
       word \<in> set SECTION_ORDER)) \<and>
   (\<not> is_list_command (normalize_text m) \<and>
    parse_done_command (normalize_text m) = Inr None \<and>
    parse_section_from_text (normalize_text m) = Inr (section, body) \<longrightarrow>
      on_text L clock c m db =
        (if body = [] then Inr (USAGE_REPLY, db)
         else Inr (added_reply section,
                   snd (add_task (isoformat L (clock 0)) c section body db))))"
proof (intro conjI impI)
  show "parse_section_from_text raw =
     Inr (if str_split raw = [] then (SECTION_ORDER ! 3, [])
          else if last (str_split raw) \<in> set SECTION_ORDER
               then (last (str_split raw), str_join [0x20] (butlast (str_split raw)))
               else (SECTION_ORDER ! 3, str_strip raw))"
    by (rule parse_section_eq)
  show "\<forall>w \<in> set (str_split raw). w \<noteq> [] \<and> (\<forall>c \<in> set w. \<not> isspace c)"
    by (rule split_words)
next
  assume "\<forall>w \<in> set ws. w \<noteq> [] \<and> (\<forall>c \<in> set w. \<not> isspace c)"
  then show "str_split (str_join [0x20] ws) = ws" by (rule split_join)
next
  assume "str_split raw \<noteq> []"
  then show "str_join [0x20] (butlast (str_split raw)) = [] \<longleftrightarrow> length (str_split raw) = 1"
    by (rule body_empty_iff)
next
  assume t: "text = normalize_text m"
  show "str_strip text = text" by (rule normalize_text_fixed(1) [OF t])
  show j: "text = str_join [0x20] (str_split text)" by (rule normalize_text_fixed(2) [OF t])
  assume "1 < length (str_split text)"
  then have "butlast (str_split text) \<noteq> []" by (cases "str_split text") auto
  then have "str_join [0x20] (str_split text) =
      str_join [0x20] (butlast (str_split text)) @ [0x20] @ last (str_split text)"
    by (rule join_butlast)
  then show "text = str_join [0x20] (butlast (str_split text)) @ [0x20] @ last (str_split text)"
    using j by simp
next
  assume "(\<forall>c. 0x5D0 \<le> c \<and> c \<le> 0x5EA \<longrightarrow> cf c = [c]) \<and>
    (\<forall>c. \<not> (0x5D0 \<le> c \<and> c \<le> 0x5EA) \<longrightarrow>
           cf c \<noteq> [] \<and> (\<forall>d \<in> set (cf c). \<not> (0x5D0 \<le> d \<and> d \<le> 0x5EA)))"
  then have h1: "\<forall>c. 0x5D0 \<le> c \<and> c \<le> 0x5EA \<longrightarrow> cf c = [c]"
    and h2: "\<forall>c. \<not> (0x5D0 \<le> c \<and> c \<le> 0x5EA) \<longrightarrow>
           cf c \<noteq> [] \<and> (\<forall>d \<in> set (cf c). \<not> (0x5D0 \<le> d \<and> d \<le> 0x5EA))"
    by blast+
  show "(\<exists>k \<in> set SECTION_ORDER. matches_ignoring_case cf word k) \<longleftrightarrow>
       word \<in> set SECTION_ORDER"
    by (rule matches_ignoring_case_exact [OF h1 h2])
next
  assume "\<not> is_list_command (normalize_text m) \<and>
    parse_done_command (normalize_text m) = Inr None \<and>
    parse_section_from_text (normalize_text m) = Inr (section, body)"
  then show "on_text L clock c m db =
        (if body = [] then Inr (USAGE_REPLY, db)
         else Inr (added_reply section,
                   snd (add_task (isoformat L (clock 0)) c section body db)))"
    using on_text_new_task by blast
qed


theorem parse_section_from_text_tokens_witness:
  "str_split ex_message = [cps ''feed'', cps ''cat'', SECTION_ORDER ! 0] \<and>
   parse_section_from_text ex_message = Inr (SECTION_ORDER ! 0, cps ''feed cat'') \<and>
   str_split (str_join [0x20] [cps ''feed'', cps ''cat'']) = [cps ''feed'', cps ''cat''] \<and>
   normalize_text (Some ex_message) = cps ''feed cat '' @ SECTION_ORDER ! 0 \<and>
   str_strip (cps ''feed cat '' @ SECTION_ORDER ! 0) = cps ''feed cat '' @ SECTION_ORDER ! 0 \<and>
   cps ''feed cat '' @ SECTION_ORDER ! 0 =
     str_join [0x20] (butlast (str_split (cps ''feed cat '' @ SECTION_ORDER ! 0))) @ [0x20]
       @ last (str_split (cps ''feed cat '' @ SECTION_ORDER ! 0)) \<and>
   (\<exists>k \<in> set SECTION_ORDER. matches_ignoring_case ex_fold (SECTION_ORDER ! 0) k) \<and>
   \<not> (\<exists>k \<in> set SECTION_ORDER. matches_ignoring_case ex_fold (cps ''Urgent'') k) \<and>
   on_text ex_lib ex_clock 7 (Some ex_message) ex_db =
     Inr (added_reply (SECTION_ORDER ! 0),
          snd (add_task (isoformat ex_lib (ex_clock 0)) 7 (SECTION_ORDER ! 0) (cps ''feed cat'') ex_db)) \<and>
   on_text ex_lib ex_clock 7 (Some (SECTION_ORDER ! 1)) ex_db = Inr (USAGE_REPLY, ex_db)"
proof -
  let ?t = "cps ''feed cat '' @ SECTION_ORDER ! 0"
  have sp: "\<not> isspace 0x5D3" "\<not> isspace 0x5D7" "\<not> isspace 0x5D5" "\<not> isspace 0x5E3"
    "\<not> isspace 0x5D4" "\<not> isspace 0x5D9" "\<not> isspace 0x5DD"
    "isspace 0x20" "isspace 0x09" "\<not> isspace 0x66" "\<not> isspace 0x65" "\<not> isspace 0x64"
    "\<not> isspace 0x63" "\<not> isspace 0x61" "\<not> isspace 0x74"
    by (simp_all add: isspace_def)
  have e1: "str_split ex_message = [cps ''feed'', cps ''cat'', SECTION_ORDER ! 0]"
    by (simp add: ex_message_def str_split_def cps_def SECTION_ORDER_def sp)
  have e2: "normalize_text (Some ex_message) = ?t"
    by (simp add: ex_message_def normalize_text_def str_strip_def cps_def SECTION_ORDER_def sp)
  have e3: "str_split ?t = [cps ''feed'', cps ''cat'', SECTION_ORDER ! 0]"
    by (simp add: str_split_def cps_def SECTION_ORDER_def sp)
  have e4: "str_split (SECTION_ORDER ! 1) = [SECTION_ORDER ! 1]"
    by (simp add: str_split_def SECTION_ORDER_def sp)
  have e5: "normalize_text (Some (SECTION_ORDER ! 1)) = SECTION_ORDER ! 1"
    by (simp add: normalize_text_def str_strip_def SECTION_ORDER_def sp)
  have k0: "SECTION_ORDER ! 0 \<in> set SECTION_ORDER" and k1: "SECTION_ORDER ! 1 \<in> set SECTION_ORDER"
    by (simp_all add: SECTION_ORDER_def)
  have p1: "parse_section_from_text ex_message = Inr (SECTION_ORDER ! 0, cps ''feed cat'')"
    using parse_section_from_text_tokens [of ex_message, THEN conjunct1] k0
    unfolding e1 by (simp add: cps_def)
  have w: "\<forall>w \<in> set [cps ''feed'', cps ''cat'']. w \<noteq> [] \<and> (\<forall>c \<in> set w. \<not> isspace c)"
    by (simp add: cps_def sp)
  note J = parse_section_from_text_tokens [THEN conjunct2, THEN conjunct2, THEN conjunct1,
      THEN mp, OF w]
  note N = parse_section_from_text_tokens [of _ _ ?t "Some ex_message", THEN conjunct2,
      THEN conjunct2, THEN conjunct2, THEN conjunct2, THEN conjunct1, THEN mp, OF e2 [symmetric]]
  have l: "1 < length (str_split ?t)" unfolding e3 by simp
  note N3 = N [THEN conjunct2, THEN conjunct2, THEN mp, OF l]
  have f: "(\<forall>c. 0x5D0 \<le> c \<and> c \<le> 0x5EA \<longrightarrow> ex_fold c = [c]) \<and>
    (\<forall>c. \<not> (0x5D0 \<le> c \<and> c \<le> 0x5EA) \<longrightarrow>
           ex_fold c \<noteq> [] \<and> (\<forall>d \<in> set (ex_fold c). \<not> (0x5D0 \<le> d \<and> d \<le> 0x5EA)))"
    by (auto simp: ex_fold_def)
  note M = parse_section_from_text_tokens [of _ _ _ _ ex_fold, THEN conjunct2, THEN conjunct2,
      THEN conjunct2, THEN conjunct2, THEN conjunct2, THEN conjunct1, THEN mp, OF f]
  have m0: "\<exists>k \<in> set SECTION_ORDER. matches_ignoring_case ex_fold (SECTION_ORDER ! 0) k"
    using M [of "SECTION_ORDER ! 0"] k0 by blast
  have "cps ''Urgent'' \<notin> set SECTION_ORDER" by (simp add: SECTION_ORDER_def cps_def)
  then have m1: "\<not> (\<exists>k \<in> set SECTION_ORDER. matches_ignoring_case ex_fold (cps ''Urgent'') k)"
    using M [of "cps ''Urgent''"] by blast
  have nl: "\<not> is_list_command ?t" "\<not> is_list_command (SECTION_ORDER ! 1)"
    by (simp_all add: is_list_command_def LIST_COMMANDS_def SECTION_ORDER_def cps_def)
  have nd: "parse_done_command ?t = Inr None" "parse_done_command (SECTION_ORDER ! 1) = Inr None"
    by (simp_all add: parse_done_command_def DONE_VERBS_def SECTION_ORDER_def cps_def)
  have p2: "parse_section_from_text ?t = Inr (SECTION_ORDER ! 0, cps ''feed cat'')"
    using parse_section_from_text_tokens [of ?t, THEN conjunct1] k0
    unfolding e3 by (simp add: cps_def)
  have p3: "parse_section_from_text (SECTION_ORDER ! 1) = Inr (SECTION_ORDER ! 1, [])"
    using parse_section_from_text_tokens [of "SECTION_ORDER ! 1", THEN conjunct1] k1
    unfolding e4 by simp
  have h1: "\<not> is_list_command (normalize_text (Some ex_message)) \<and>
    parse_done_command (normalize_text (Some ex_message)) = Inr None \<and>
    parse_section_from_text (normalize_text (Some ex_message)) = Inr (SECTION_ORDER ! 0, cps ''feed cat'')"
    unfolding e2 using nl(1) nd(1) p2 by (intro conjI)
  have h2: "\<not> is_list_command (normalize_text (Some (SECTION_ORDER ! 1))) \<and>
    parse_done_command (normalize_text (Some (SECTION_ORDER ! 1))) = Inr None \<and>
    parse_section_from_text (normalize_text (Some (SECTION_ORDER ! 1))) = Inr (SECTION_ORDER ! 1, [])"
    unfolding e5 using nl(2) nd(2) p3 by (intro conjI)
  have ne: "cps ''feed cat'' \<noteq> []" by (simp add: cps_def)
  note O1 = parse_section_from_text_tokens [of _ _ _ "Some ex_message" _ _ "SECTION_ORDER ! 0"
      "cps ''feed cat''" ex_lib ex_clock 7 ex_db, THEN conjunct2, THEN conjunct2, THEN conjunct2,
      THEN conjunct2, THEN conjunct2, THEN conjunct2, THEN mp, OF h1]
  note O2 = parse_section_from_text_tokens [of _ _ _ "Some (SECTION_ORDER ! 1)" _ _
      "SECTION_ORDER ! 1" "[]" ex_lib ex_clock 7 ex_db, THEN conjunct2, THEN conjunct2,
      THEN conjunct2, THEN conjunct2, THEN conjunct2, THEN conjunct2, THEN mp, OF h2]
  have o1: "on_text ex_lib ex_clock 7 (Some ex_message) ex_db =
     Inr (added_reply (SECTION_ORDER ! 0),
          snd (add_task (isoformat ex_lib (ex_clock 0)) 7 (SECTION_ORDER ! 0) (cps ''feed cat'') ex_db))"
    using O1 ne by (simp only: if_False)
  have o2: "on_text ex_lib ex_clock 7 (Some (SECTION_ORDER ! 1)) ex_db = Inr (USAGE_REPLY, ex_db)"
    using O2 by (simp only: if_True simp_thms)
  show ?thesis
    using e1 p1 J e2 N [THEN conjunct1] N3 m0 m1 o1 o2 by (intro conjI) assumption+
qed

section \<open>The digest of completed tasks: proofs\<close>











section \<open>The order across a change of the clocks: proofs\<close>

lemmas cal_defs = ord2ymd_def ymd2ord_def days_before_year_def days_before_month_def
  days_in_month_def is_leap_def upto_rec1

lemmas iso_defs = iso_utc_microseconds_def parse_iso_def digits_at_def
  py_isoformat_def zpad_def str_int_def str_nat.simps cps_def

text \<open>
  C1. The order by \<open>created_at\<close> is the order of the stored texts, not of the times they
  denote. In the table of the example the task 1 was created at 01:30 summer time and
  the task 2 forty minutes and half a second later, at 01:10 winter time; both are open
  tasks of the conversation 7 in the last section. The text of the later time is the
  smaller one, so the task 2 gets the display number 1 and the task 1 the number 2.
\<close>

theorem ordered_open_tasks_dst_order:
  "get_open_tasks 7 ex_dst_db =
     [(1, SECTION_ORDER ! 3, cps ''first'', cps ''2024-10-27T01:30:00.250000+03:00''),
      (2, SECTION_ORDER ! 3, cps ''second'', cps ''2024-10-27T01:10:00.750000+02:00'')] \<and>
   iso_utc_microseconds (cps ''2024-10-27T01:30:00.250000+03:00'') = Some 63865665000250000 \<and>
   iso_utc_microseconds (cps ''2024-10-27T01:10:00.750000+02:00'') = Some 63865667400750000 \<and>
   ordered_open_tasks_with_numbers 7 ex_dst_db =
     [(1, 2, SECTION_ORDER ! 3, cps ''second'', cps ''2024-10-27T01:10:00.750000+02:00''),
      (2, 1, SECTION_ORDER ! 3, cps ''first'', cps ''2024-10-27T01:30:00.250000+03:00'')]"
proof -
  have i1: "py_isoformat (\<lambda>d. 180) ex_dst_now1 = cps ''2024-10-27T01:30:00.250000+03:00''"
    by (simp add: ex_dst_now1_def iso_defs cal_defs)
  have i2: "py_isoformat (\<lambda>d. 120) ex_dst_now2 = cps ''2024-10-27T01:10:00.750000+02:00''"
    by (simp add: ex_dst_now2_def iso_defs cal_defs)
  have s: "str_strip (cps ''first'') = cps ''first''" "str_strip (cps ''second'') = cps ''second''"
    by (simp_all add: str_strip_def isspace_def cps_def)
  have db: "ex_dst_db =
     \<lparr>rows =
        [\<lparr>t_id = 1, t_chat_id = 7, t_section = [0x5DB, 0x5DC, 0x5DC, 0x5D9],
          t_text = cps ''first'', t_created_at = cps ''2024-10-27T01:30:00.250000+03:00'',
          t_done = 0, t_done_at = None\<rparr>,
         \<lparr>t_id = 2, t_chat_id = 7, t_section = [0x5DB, 0x5DC, 0x5DC, 0x5D9],
          t_text = cps ''second'', t_created_at = cps ''2024-10-27T01:10:00.750000+02:00'',
          t_done = 0, t_done_at = None\<rparr>],
      seq = 2\<rparr>"
    unfolding ex_dst_db_def i1 i2 by (simp add: add_task_def s)
  have g: "get_open_tasks 7 ex_dst_db =
     [(1, SECTION_ORDER ! 3, cps ''first'', cps ''2024-10-27T01:30:00.250000+03:00''),
      (2, SECTION_ORDER ! 3, cps ''second'', cps ''2024-10-27T01:10:00.750000+02:00'')]"
    unfolding db by (simp add: get_open_tasks_def SECTION_ORDER_def)
  have t1: "iso_utc_microseconds (cps ''2024-10-27T01:30:00.250000+03:00'')
              = Some 63865665000250000"
    by (simp add: iso_defs cal_defs)
  have t2: "iso_utc_microseconds (cps ''2024-10-27T01:10:00.750000+02:00'')
              = Some 63865667400750000"
    by (simp add: iso_defs cal_defs)
  have o: "ordered_open_tasks_with_numbers 7 ex_dst_db =
     [(1, 2, SECTION_ORDER ! 3, cps ''second'', cps ''2024-10-27T01:10:00.750000+02:00''),
      (2, 1, SECTION_ORDER ! 3, cps ''first'', cps ''2024-10-27T01:30:00.250000+03:00'')]"
    unfolding db by (simp add: order_defs cps_def)
  show ?thesis using g t1 t2 o by (intro conjI) assumption+
qed

end
